theory Spec2Isabelle
  imports Complex_Main "HOL-Library.Sublist"
begin

section \<open>Data model\<close>

text \<open>
  Values that cross the JavaScript boundary. A node reference may be \<open>null\<close> or
  \<open>undefined\<close> at run time although the interface \<open>FigmaNode\<close> does not say so, hence
  the constructor \<open>Null\<close>. The field \<open>children\<close> is optional; when present it is an array
  whose entries are node references again. The payload attributes are opaque to the
  pipeline and are kept as they are.
\<close>

type_synonym js_any = string

record bounding_box =
  bb_x :: int
  bb_y :: int
  bb_width :: int
  bb_height :: int

record node_style =
  fontFamily :: "string option"
  fontSize :: "int option"
  fontWeight :: "string option"

record payload =
  absoluteBoundingBox :: "bounding_box option"
  fills :: "js_any list option"
  backgroundColor :: "js_any option"
  style :: "node_style option"

datatype figma_node =
    Null
  | FigmaNode string string string payload "figma_node list option"

text \<open>An element of the flattened sequence: the node (a copy of all its fields) and its depth.\<close>

record flat_node =
  fnode :: figma_node
  depth :: nat

datatype js_error = AbortError | TypeError | ChunkFailure string

record ProcessingConfig =
  chunkSize :: int
  maxConcurrentChunks :: int
  enableVirtualization :: bool
  enableStreaming :: bool
  memoryThresholdMB :: int
  maxRetriesPerChunk :: int
  progressThrottleMS :: int

text \<open>\<open>Partial<ProcessingConfig>\<close>: every field may be absent.\<close>

record PartialConfig =
  opt_chunkSize :: "int option"
  opt_maxConcurrentChunks :: "int option"
  opt_enableVirtualization :: "bool option"
  opt_enableStreaming :: "bool option"
  opt_memoryThresholdMB :: "int option"
  opt_maxRetriesPerChunk :: "int option"
  opt_progressThrottleMS :: "int option"

text \<open>The constructor of \<open>LargeFileProcessor\<close>: the defaults, overridden by the fields given.\<close>

definition orDefault :: "'a \<Rightarrow> 'a option \<Rightarrow> 'a" where
  "orDefault d v = (case v of None \<Rightarrow> d | Some x \<Rightarrow> x)"

definition empty_config :: PartialConfig where
  "empty_config =
     \<lparr> opt_chunkSize = None, opt_maxConcurrentChunks = None, opt_enableVirtualization = None,
       opt_enableStreaming = None, opt_memoryThresholdMB = None, opt_maxRetriesPerChunk = None,
       opt_progressThrottleMS = None \<rparr>"

definition LargeFileProcessor_constructor :: "PartialConfig \<Rightarrow> ProcessingConfig" where
  "LargeFileProcessor_constructor config =
     \<lparr> chunkSize = orDefault 50 (opt_chunkSize config),
       maxConcurrentChunks = orDefault 3 (opt_maxConcurrentChunks config),
       enableVirtualization = orDefault True (opt_enableVirtualization config),
       enableStreaming = orDefault True (opt_enableStreaming config),
       memoryThresholdMB = orDefault 100 (opt_memoryThresholdMB config),
       maxRetriesPerChunk = orDefault 3 (opt_maxRetriesPerChunk config),
       progressThrottleMS = orDefault 200 (opt_progressThrottleMS config) \<rparr>"

section \<open>Flattening and counting\<close>

text \<open>
  \<open>LargeFileProcessor.flattenDocumentTree\<close>. The loop over \<open>node.children\<close> is
  \<open>flatten_children\<close>; it appends the flattening of every truthy child at \<open>depth + 1\<close>.
\<close>

fun flattenDocumentTree :: "figma_node \<Rightarrow> nat \<Rightarrow> flat_node list"
  and flatten_children :: "figma_node list \<Rightarrow> nat \<Rightarrow> flat_node list" where
  "flattenDocumentTree Null d = []"
| "flattenDocumentTree (FigmaNode i n t p None) d =
     [\<lparr>fnode = FigmaNode i n t p None, depth = d\<rparr>]"
| "flattenDocumentTree (FigmaNode i n t p (Some cs)) d =
     \<lparr>fnode = FigmaNode i n t p (Some cs), depth = d\<rparr> # flatten_children cs d"
| "flatten_children [] d = []"
| "flatten_children (child # rest) d =
     (if child \<noteq> Null then flattenDocumentTree child (d + 1) else []) @ flatten_children rest d"

text \<open>
  \<open>RealTimeProcessor.countNodes\<close>. Reading \<open>node.children\<close> of \<open>null\<close> raises a
  \<open>TypeError\<close>; \<open>countNodes_reduce\<close> is the \<open>reduce\<close> over the children with its
  running sum.
\<close>

fun countNodes :: "figma_node \<Rightarrow> js_error + nat"
  and countNodes_reduce :: "figma_node list \<Rightarrow> nat \<Rightarrow> js_error + nat" where
  "countNodes Null = Inl TypeError"
| "countNodes (FigmaNode i n t p None) = Inr 1"
| "countNodes (FigmaNode i n t p (Some cs)) =
     (case countNodes_reduce cs 0 of Inl e \<Rightarrow> Inl e | Inr s \<Rightarrow> Inr (1 + s))"
| "countNodes_reduce [] acc = Inr acc"
| "countNodes_reduce (child # rest) acc =
     (case countNodes child of Inl e \<Rightarrow> Inl e | Inr k \<Rightarrow> countNodes_reduce rest (acc + k))"

text \<open>
  \<open>RealTimeProcessor.flattenNodes\<close> (and the identical method of the worker): no guard
  against \<open>null\<close>.
\<close>

fun flattenNodes :: "figma_node \<Rightarrow> js_error + figma_node list"
  and flattenNodes_forEach :: "figma_node list \<Rightarrow> figma_node list \<Rightarrow> js_error + figma_node list" where
  "flattenNodes Null = Inl TypeError"
| "flattenNodes (FigmaNode i n t p None) = Inr [FigmaNode i n t p None]"
| "flattenNodes (FigmaNode i n t p (Some cs)) =
     flattenNodes_forEach cs [FigmaNode i n t p (Some cs)]"
| "flattenNodes_forEach [] nodes = Inr nodes"
| "flattenNodes_forEach (child # rest) nodes =
     (case flattenNodes child of Inl e \<Rightarrow> Inl e | Inr sub \<Rightarrow> flattenNodes_forEach rest (nodes @ sub))"

text \<open>
  Reference notions for the statement about flattening: the subtree reached from a node
  along a path of child indices (\<open>Null\<close> where there is none), and the number of
  non-null nodes of a tree.
\<close>

fun node_at :: "figma_node \<Rightarrow> nat list \<Rightarrow> figma_node" where
  "node_at t [] = t"
| "node_at (FigmaNode i n t p (Some cs)) (k # path) =
     (if k < length cs then node_at (cs ! k) path else Null)"
| "node_at _ (k # path) = Null"

fun count_present :: "figma_node \<Rightarrow> nat" where
  "count_present Null = 0"
| "count_present (FigmaNode i n t p None) = 1"
| "count_present (FigmaNode i n t p (Some cs)) = 1 + sum_list (map count_present cs)"

fun no_nulls :: "figma_node \<Rightarrow> bool" where
  "no_nulls Null = False"
| "no_nulls (FigmaNode i n t p None) = True"
| "no_nulls (FigmaNode i n t p (Some cs)) = list_all no_nulls cs"

section \<open>Chunking\<close>

text \<open>\<open>Array.prototype.slice(start, end)\<close> for integer arguments.\<close>

definition js_slice :: "'a list \<Rightarrow> int \<Rightarrow> int \<Rightarrow> 'a list" where
  "js_slice xs start fin =
     (let len = int (length xs);
          k = (if start < 0 then max (len + start) 0 else min start len);
          final = (if fin < 0 then max (len + fin) 0 else min fin len)
      in take (nat (final - k)) (drop (nat k) xs))"

text \<open>
  \<open>LargeFileProcessor.createChunks\<close>: the \<open>for\<close> loop with its index \<open>i\<close> and the
  array \<open>chunks\<close> built so far. The loop need not terminate; not returning is \<open>None\<close>.
\<close>

partial_function (option) createChunks_loop ::
  "'a list \<Rightarrow> int \<Rightarrow> int \<Rightarrow> 'a list list \<Rightarrow> 'a list list option" where
  "createChunks_loop array csize i chunks =
     (if i < int (length array)
      then createChunks_loop array csize (i + csize) (chunks @ [js_slice array i (i + csize)])
      else Some chunks)"

declare createChunks_loop.simps [code]

definition createChunks :: "'a list \<Rightarrow> int \<Rightarrow> 'a list list option" where
  "createChunks array csize = createChunks_loop array csize 0 []"

text \<open>\<open>RealTimeProcessor.createBatches\<close>.\<close>

partial_function (option) createBatches_loop ::
  "'a list \<Rightarrow> int \<Rightarrow> int \<Rightarrow> 'a list list \<Rightarrow> 'a list list option" where
  "createBatches_loop array batchSize i batches =
     (if i < int (length array)
      then createBatches_loop array batchSize (i + batchSize) (batches @ [js_slice array i (i + batchSize)])
      else Some batches)"

declare createBatches_loop.simps [code]

definition createBatches :: "'a list \<Rightarrow> int \<Rightarrow> 'a list list option" where
  "createBatches array batchSize = createBatches_loop array batchSize 0 []"

text \<open>
  The partition the specification describes: consecutive slices of \<open>n\<close> elements, the
  last one possibly shorter.
\<close>

function partition_spec :: "nat \<Rightarrow> 'a list \<Rightarrow> 'a list list" where
  "partition_spec n xs =
     (if n = 0 \<or> xs = [] then [] else take n xs # partition_spec n (drop n xs))"
  by pat_completeness auto
termination
  by (relation "measure (\<lambda>(n, xs). length xs)") auto

declare partition_spec.simps [simp del]

section \<open>Permit pool\<close>

text \<open>
  The class \<open>Semaphore\<close>. A queued closure is identified by the caller that pushed it;
  running it takes a permit and resolves that caller's promise. \<open>acquire\<close> reports
  whether the promise was resolved at once, \<open>release\<close> reports the caller it woke.
\<close>

record Semaphore =
  permits :: int
  queue :: "nat list"

definition Semaphore_constructor :: "int \<Rightarrow> Semaphore" where
  "Semaphore_constructor n = \<lparr>permits = n, queue = []\<rparr>"

definition acquire :: "nat \<Rightarrow> Semaphore \<Rightarrow> Semaphore \<times> bool" where
  "acquire caller s =
     (if permits s > 0 then (s\<lparr>permits := permits s - 1\<rparr>, True)
      else (s\<lparr>queue := queue s @ [caller]\<rparr>, False))"

definition release :: "Semaphore \<Rightarrow> Semaphore \<times> nat option" where
  "release s =
     (let s1 = s\<lparr>permits := permits s + 1\<rparr>
      in case queue s1 of
           [] \<Rightarrow> (s1, None)
         | next # rest \<Rightarrow> (s1\<lparr>queue := rest, permits := permits s1 - 1\<rparr>, Some next))"

text \<open>
  Interleavings of the semaphore's clients. A client can call \<open>release\<close> only through
  the function its resolved promise handed to it, and \<open>processChunksWithConcurrency\<close>
  calls it once, in a \<open>finally\<close> block; \<open>holders\<close> lists the clients that were handed a
  permit and have not released it.
\<close>

datatype sem_event = Acquire nat | Release nat

record sem_system =
  sem :: Semaphore
  holders :: "nat list"

definition sem_init :: "int \<Rightarrow> sem_system" where
  "sem_init n = \<lparr>sem = Semaphore_constructor n, holders = []\<rparr>"

fun sem_step :: "sem_event \<Rightarrow> sem_system \<Rightarrow> sem_system option" where
  "sem_step (Acquire c) st =
     (case acquire c (sem st) of
        (s', granted) \<Rightarrow> Some \<lparr>sem = s', holders = (if granted then holders st @ [c] else holders st)\<rparr>)"
| "sem_step (Release c) st =
     (if c \<in> set (holders st)
      then (case release (sem st) of
              (s', woken) \<Rightarrow>
                Some \<lparr>sem = s',
                      holders = remove1 c (holders st) @ (case woken of None \<Rightarrow> [] | Some w \<Rightarrow> [w])\<rparr>)
      else None)"

fun sem_run :: "sem_event list \<Rightarrow> sem_system \<Rightarrow> sem_system option" where
  "sem_run [] st = Some st"
| "sem_run (e # es) st = (case sem_step e st of None \<Rightarrow> None | Some st' \<Rightarrow> sem_run es st')"

section \<open>Example values\<close>

definition no_payload :: payload where
  "no_payload = \<lparr>absoluteBoundingBox = None, fills = None, backgroundColor = None, style = None\<rparr>"

definition leaf :: "string \<Rightarrow> figma_node" where
  "leaf i = FigmaNode i ''leaf'' ''RECTANGLE'' no_payload None"

definition frame :: "string \<Rightarrow> figma_node list \<Rightarrow> figma_node" where
  "frame i cs = FigmaNode i ''frame'' ''FRAME'' no_payload (Some cs)"

section \<open>Invariants\<close>

text \<open>The invariant of the permit pool of capacity \<open>n\<close>.\<close>

definition sem_inv :: "int \<Rightarrow> sem_system \<Rightarrow> bool" where
  "sem_inv n st \<longleftrightarrow>
     0 \<le> permits (sem st) \<and> int (length (holders st)) + permits (sem st) = n"

section \<open>Progress reporting\<close>

text \<open>
  A JavaScript number that may be \<open>Infinity\<close>. Finite values are exact rationals:
  rounding of doubles is not modelled.
\<close>

datatype js_number = Finite rat | Infinity

record ProcessingProgress =
  pr_totalNodes :: int
  pr_processedNodes :: int
  currentChunk :: int
  totalChunks :: int
  memoryUsageMB :: rat
  estimatedTimeRemainingMS :: js_number

text \<open>
  The fields of a \<open>LargeFileProcessor\<close> object. \<open>abortController\<close> is \<open>None\<close> for
  \<open>null\<close> and \<open>Some b\<close> for a controller whose \<open>signal.aborted\<close> is \<open>b\<close>.
  \<open>progressCallback\<close> tells whether a callback is registered; its calls are recorded in
  \<open>delivered\<close>, each with the clock reading at which it was made.
\<close>

record LargeFileProcessor =
  config :: ProcessingConfig
  abortController :: "bool option"
  progressCallback :: bool
  lastProgressEmitTime :: int
  memoryCheckInterval :: bool
  delivered :: "(int \<times> ProcessingProgress) list"

text \<open>
  What one call of \<open>maybeEmitProgress\<close> reads from its environment: \<open>Date.now()\<close> in
  \<open>maybeEmitProgress\<close>, \<open>Date.now()\<close> in \<open>calculateETA\<close>, and \<open>getMemoryUsageMB()\<close>.
\<close>

record readings =
  now_emit :: int
  now_eta :: int
  memory :: rat

definition calculateETA :: "int \<Rightarrow> int \<Rightarrow> int \<Rightarrow> LargeFileProcessor \<Rightarrow> js_number" where
  "calculateETA now processed totalCount this =
     (let elapsed = now - (if lastProgressEmitTime this \<noteq> 0 then lastProgressEmitTime this else now)
      in if processed = 0 \<or> elapsed = 0 then Infinity
         else (let rate = of_int processed / of_int elapsed;
                   remaining = totalCount - processed
               in Finite (of_int remaining / rate)))"

definition maybeEmitProgress ::
  "readings \<Rightarrow> int \<Rightarrow> int \<Rightarrow> int \<Rightarrow> int \<Rightarrow> LargeFileProcessor \<Rightarrow> LargeFileProcessor" where
  "maybeEmitProgress r totalCount processed current chunkTotal this =
     (let now = now_emit r
      in if progressCallback this \<and>
            (now - lastProgressEmitTime this > progressThrottleMS (config this) \<or> processed = totalCount)
         then (let this1 = this\<lparr>lastProgressEmitTime := now\<rparr>;
                   eta = calculateETA (now_eta r) processed totalCount this1
               in this1\<lparr>delivered := delivered this1 @
                    [(now, \<lparr>pr_totalNodes = totalCount, pr_processedNodes = processed,
                             currentChunk = current, totalChunks = chunkTotal,
                             memoryUsageMB = memory r, estimatedTimeRemainingMS = eta\<rparr>)]\<rparr>)
         else this)"

text \<open>A sequence of progress updates, as \<open>processChunk\<close> makes them one after the other.\<close>

record progress_update =
  upd_readings :: readings
  upd_total :: int
  upd_processed :: int
  upd_current :: int
  upd_chunkTotal :: int

definition emit_update :: "progress_update \<Rightarrow> LargeFileProcessor \<Rightarrow> LargeFileProcessor" where
  "emit_update u this =
     maybeEmitProgress (upd_readings u) (upd_total u) (upd_processed u) (upd_current u)
       (upd_chunkTotal u) this"

fun emit_updates :: "progress_update list \<Rightarrow> LargeFileProcessor \<Rightarrow> LargeFileProcessor" where
  "emit_updates [] this = this"
| "emit_updates (u # us) this = emit_updates us (emit_update u this)"

text \<open>
  The throttling rule on a log of callback invocations: each invocation but the first is
  either a final update or more than \<open>throttle\<close> milliseconds after the one before.
\<close>

definition is_final :: "ProcessingProgress \<Rightarrow> bool" where
  "is_final p \<longleftrightarrow> pr_processedNodes p = pr_totalNodes p"

fun spaced :: "int \<Rightarrow> (int \<times> ProcessingProgress) list \<Rightarrow> bool" where
  "spaced throttle [] = True"
| "spaced throttle [x] = True"
| "spaced throttle (x # y # rest) =
     ((fst y - fst x > throttle \<or> is_final (snd y)) \<and> spaced throttle (y # rest))"

text \<open>The reporter's invariant: the log obeys the rule and the baseline is its last entry.\<close>

definition reporter_inv :: "LargeFileProcessor \<Rightarrow> bool" where
  "reporter_inv this \<longleftrightarrow>
     spaced (progressThrottleMS (config this)) (delivered this) \<and>
     (delivered this \<noteq> [] \<longrightarrow> lastProgressEmitTime this = fst (last (delivered this)))"

definition default_processor :: LargeFileProcessor where
  "default_processor =
     \<lparr> config = LargeFileProcessor_constructor empty_config, abortController = None,
       progressCallback = False, lastProgressEmitTime = 0, memoryCheckInterval = False,
       delivered = [] \<rparr>"


section \<open>Retrying unit executor\<close>

record ProcessedNode =
  pn_id :: string
  pn_name :: string
  pn_type :: string
  pn_depth :: nat
  pn_bounds :: "bounding_box option"
  pn_fills :: "js_any list option"
  pn_backgroundColor :: "js_any option"
  pn_style :: "node_style option"
  childCount :: nat

record statistics =
  st_totalNodes :: int
  st_processedNodes :: int
  startTime :: int

record ProcessedData =
  originalData :: figma_node
  processedNodes :: "ProcessedNode list"
  stats :: statistics

text \<open>
  \<open>processNode\<close>. Reading a field of \<open>null\<close> raises a \<open>TypeError\<close>; the flattened
  sequence never holds such an entry.
\<close>

fun processNode :: "flat_node \<Rightarrow> js_error + ProcessedNode" where
  "processNode \<lparr>fnode = Null, depth = d\<rparr> = Inl TypeError"
| "processNode \<lparr>fnode = FigmaNode i n t p ch, depth = d\<rparr> =
     Inr \<lparr> pn_id = i, pn_name = n, pn_type = t, pn_depth = d,
           pn_bounds = absoluteBoundingBox p,
           pn_fills = (case fills p of None \<Rightarrow> None | Some fs \<Rightarrow> Some (js_slice fs 0 3)),
           pn_backgroundColor = backgroundColor p,
           pn_style = (case style p of None \<Rightarrow> None
                       | Some s \<Rightarrow> Some \<lparr>fontFamily = fontFamily s, fontSize = fontSize s,
                                          fontWeight = fontWeight s\<rparr>),
           childCount = (case ch of None \<Rightarrow> 0 | Some cs \<Rightarrow> length cs) \<rparr>"

text \<open>\<open>Promise.all(chunk.map(processNode))\<close>: the processed chunk, or the first failure.\<close>

fun processNodes :: "flat_node list \<Rightarrow> js_error + ProcessedNode list" where
  "processNodes [] = Inr []"
| "processNodes (x # xs) =
     (case processNode x of
        Inl e \<Rightarrow> Inl e
      | Inr y \<Rightarrow> (case processNodes xs of Inl e \<Rightarrow> Inl e | Inr ys \<Rightarrow> Inr (y # ys)))"

text \<open>
  The life of one chunk inside \<open>processChunksWithConcurrency\<close>, cut at its \<open>await\<close>s:
  not yet submitted; waiting in the semaphore's queue; permit granted and the \<open>then\<close>
  callback not yet run; inside \<open>processChunk\<close> waiting for \<open>Promise.all\<close> on attempt
  number \<open>attempt\<close>; inside \<open>processChunk\<close> in its final 1 ms pause; in the backoff
  pause before the attempt with the given number; promise fulfilled; promise rejected.
\<close>

datatype phase =
    Unsubmitted
  | Waiting
  | Granted
  | Running nat
  | Sleeping
  | Backoff nat
  | Fulfilled
  | Rejected js_error

datatype retry_event = Executed nat | Waited int

text \<open>
  The head of the \<open>while\<close> loop of \<open>processChunkWithRetries\<close>: the loop condition, then
  the check of the abort signal, then the call of \<open>processChunk\<close>.
\<close>

definition retry_head :: "int \<Rightarrow> bool \<Rightarrow> nat \<Rightarrow> phase \<times> retry_event list" where
  "retry_head maxRetries aborted attempt =
     (if int attempt < maxRetries
      then (if aborted then (Rejected AbortError, [])
            else (Running attempt, [Executed attempt]))
      else (Fulfilled, []))"

text \<open>
  One resumption of the chunk's task: from the point where it was suspended to its next
  \<open>await\<close> or to its end. \<open>aborted\<close> is the value of
  \<open>this.abortController?.signal.aborted\<close> at that moment, \<open>failure\<close> the error with
  which the attempt in flight fails, if it does. The result is the next phase and what
  the task did: an execution of the chunk begun, or a backoff pause of so many
  milliseconds begun. \<open>None\<close>: the task is not suspended at an \<open>await\<close> of its own.
\<close>

fun processChunkWithRetries_step ::
  "int \<Rightarrow> bool \<Rightarrow> js_error option \<Rightarrow> phase \<Rightarrow> (phase \<times> retry_event list) option" where
  "processChunkWithRetries_step maxRetries aborted failure Granted =
     Some (retry_head maxRetries aborted 0)"
| "processChunkWithRetries_step maxRetries aborted failure (Backoff attempt) =
     Some (retry_head maxRetries aborted attempt)"
| "processChunkWithRetries_step maxRetries aborted failure (Running a) =
     Some (case failure of
             None \<Rightarrow> (Sleeping, [])
           | Some e \<Rightarrow>
               (let attempt = a + 1
                in if int attempt \<ge> maxRetries then (Rejected e, [])
                   else (Backoff attempt, [Waited (100 * 2 ^ attempt)])))"
| "processChunkWithRetries_step maxRetries aborted failure Sleeping = Some (Fulfilled, [])"
| "processChunkWithRetries_step maxRetries aborted failure _ = None"

text \<open>
  One whole call of \<open>processChunkWithRetries\<close>, with the environment given by two
  oracles: \<open>aborted k\<close> is the abort signal at the \<open>k\<close>-th resumption of the task, and
  \<open>work a\<close> is the failure of attempt number \<open>a\<close>, if it fails.
\<close>

fun phase_rank :: "int \<Rightarrow> phase \<Rightarrow> nat" where
  "phase_rank m Granted = 2 * nat m + 4"
| "phase_rank m (Backoff a) = 2 * (nat m - a) + 3"
| "phase_rank m (Running a) = 2 * (nat m - a) + 2"
| "phase_rank m Sleeping = 1"
| "phase_rank m _ = 0"

lemma processChunkWithRetries_step_rank:
  "processChunkWithRetries_step m ab f ph = Some (ph', evs) \<Longrightarrow> phase_rank m ph' < phase_rank m ph"
  by (cases ph) (auto simp: retry_head_def Let_def split: if_splits option.splits)

function task_run ::
  "int \<Rightarrow> (nat \<Rightarrow> bool) \<Rightarrow> (nat \<Rightarrow> js_error option) \<Rightarrow> nat \<Rightarrow> phase \<Rightarrow> retry_event list
     \<Rightarrow> phase \<times> retry_event list" where
  "task_run maxRetries aborted work k ph acc =
     (case processChunkWithRetries_step maxRetries (aborted k)
             (case ph of Running a \<Rightarrow> work a | _ \<Rightarrow> None) ph of
        None \<Rightarrow> (ph, acc)
      | Some (ph', evs) \<Rightarrow> task_run maxRetries aborted work (k + 1) ph' (acc @ evs))"
  by pat_completeness auto
termination
  by (relation "measure (\<lambda>(m, ab, w, k, ph, d). phase_rank m ph)")
     (auto dest: processChunkWithRetries_step_rank)

declare task_run.simps [simp del]

definition processChunkWithRetries ::
  "int \<Rightarrow> (nat \<Rightarrow> bool) \<Rightarrow> (nat \<Rightarrow> js_error option) \<Rightarrow> phase \<times> retry_event list" where
  "processChunkWithRetries maxRetries aborted work = task_run maxRetries aborted work 0 Granted []"

text \<open>The events the specification expects of a chunk that fails \<open>n\<close> times in a row.\<close>

definition retry_schedule :: "nat \<Rightarrow> nat \<Rightarrow> retry_event list" where
  "retry_schedule a n =
     concat (map (\<lambda>k. [Executed k, Waited (100 * 2 ^ (k + 1))]) [a ..< n - 1]) @ [Executed (n - 1)]"

definition executions :: "retry_event list \<Rightarrow> nat list" where
  "executions evs = concat (map (\<lambda>e. case e of Executed a \<Rightarrow> [a] | Waited ms \<Rightarrow> []) evs)"

definition pauses :: "retry_event list \<Rightarrow> int list" where
  "pauses evs = concat (map (\<lambda>e. case e of Executed a \<Rightarrow> [] | Waited ms \<Rightarrow> [ms]) evs)"

definition never_aborted :: "nat \<Rightarrow> bool" where
  "never_aborted k = False"

definition always_failing :: "nat \<Rightarrow> js_error option" where
  "always_failing a = Some (ChunkFailure ''injected failure'')"

section \<open>The run of \<open>processLargeFigmaFile\<close>\<close>

text \<open>
  How a call of \<open>processLargeFigmaFile\<close> ends: it returns the \<open>ProcessedData\<close>, or its
  promise is rejected with an error.
\<close>

datatype outcome = Returned ProcessedData | Thrown js_error

text \<open>
  Where the main task stands: suspended in the submission loop of
  \<open>processChunksWithConcurrency\<close> (at its periodic yield), suspended in
  \<open>await Promise.all(promises)\<close>, or settled.
\<close>

datatype main_state = InLoop | AwaitAll | Settled outcome

text \<open>
  The state of one run: the processor object, the chunks, the \<open>processedData\<close> under
  construction, the semaphore, the loop variable \<open>i\<close>, the main task, one phase for each
  chunk, the rejection that \<open>Promise.all\<close> has seen, and a trace of what the chunks'
  tasks did.
\<close>

record pipeline =
  processor :: LargeFileProcessor
  chunks :: "flat_node list list"
  processedData :: ProcessedData
  semaphore :: Semaphore
  loop_i :: nat
  main :: main_state
  tasks :: "phase list"
  allRejected :: "js_error option"
  trace :: "(nat \<times> retry_event) list"

text \<open>
  The \<open>catch\<close> and \<open>finally\<close> blocks of \<open>processLargeFigmaFile\<close>: the error is logged and
  thrown again; monitoring stops, \<open>abortController\<close> and \<open>progressCallback\<close> are cleared.
\<close>

definition settle :: "outcome \<Rightarrow> pipeline \<Rightarrow> pipeline" where
  "settle out s =
     s\<lparr> main := Settled out,
        processor := (processor s)\<lparr> memoryCheckInterval := False, abortController := None,
                                    progressCallback := False \<rparr> \<rparr>"

definition first_rejected :: "phase list \<Rightarrow> js_error option" where
  "first_rejected ts =
     (case List.map_filter (\<lambda>ph. case ph of Rejected e \<Rightarrow> Some e | _ \<Rightarrow> None) ts of
        [] \<Rightarrow> None
      | e # _ \<Rightarrow> Some e)"

text \<open>
  The submission loop of \<open>processChunksWithConcurrency\<close> from its current \<open>i\<close> to its next
  yield (after a chunk with \<open>i % 10 = 0\<close>), to the throw of the \<open>AbortError\<close>, or to
  \<open>Promise.all\<close>, which is rejected at once by a task that has failed already.
\<close>

function main_block :: "pipeline \<Rightarrow> pipeline" where
  "main_block s =
     (let i = loop_i s
      in if i < length (chunks s)
         then (if abortController (processor s) = Some True
               then settle (Thrown AbortError) s
               else (case acquire i (semaphore s) of
                       (sem', granted) \<Rightarrow>
                         (let s1 = s\<lparr> semaphore := sem',
                                       tasks := (tasks s)[i := (if granted then Granted else Waiting)],
                                       loop_i := i + 1 \<rparr>
                          in if i mod 10 = 0 then s1 else main_block s1)))
         else s\<lparr> main := AwaitAll, allRejected := first_rejected (tasks s) \<rparr>)"
  by pat_completeness auto
termination
  by (relation "measure (\<lambda>s. length (chunks s) - loop_i s)") auto

declare main_block.simps [simp del]

definition all_fulfilled :: "phase list \<Rightarrow> bool" where
  "all_fulfilled ts = list_all (\<lambda>ph. ph = Fulfilled) ts"

definition main_step :: "pipeline \<Rightarrow> pipeline option" where
  "main_step s =
     (case main s of
        InLoop \<Rightarrow> Some (main_block s)
      | AwaitAll \<Rightarrow>
          (case allRejected s of
             Some e \<Rightarrow> Some (settle (Thrown e) s)
           | None \<Rightarrow> if all_fulfilled (tasks s)
                     then Some (settle (Returned (processedData s)) s)
                     else None)
      | Settled out \<Rightarrow> None)"

text \<open>
  The end of a chunk's task: \<open>release()\<close> in the \<open>finally\<close> block, which hands the permit
  to the longest-waiting chunk, and the settling of the task's promise, which
  \<open>Promise.all\<close> notices if it is a rejection, the main task waits there, and no
  rejection came before.
\<close>

definition finish_task :: "nat \<Rightarrow> phase \<Rightarrow> pipeline \<Rightarrow> pipeline" where
  "finish_task j ph s =
     (case release (semaphore s) of
        (sem', woken) \<Rightarrow>
          (let ts = (tasks s)[j := ph];
               ts' = (case woken of None \<Rightarrow> ts | Some w \<Rightarrow> ts[w := Granted])
           in s\<lparr> semaphore := sem', tasks := ts',
                 allRejected :=
                   (case ph of
                      Rejected e \<Rightarrow> (if main s = AwaitAll \<and> allRejected s = None then Some e
                                     else allRejected s)
                    | _ \<Rightarrow> allRejected s) \<rparr>))"

text \<open>
  The part of \<open>processChunk\<close> after \<open>Promise.all\<close>: the processed nodes are appended, the
  counter grows by the length of the chunk, and progress is reported.
\<close>

definition processChunk_commit :: "readings \<Rightarrow> nat \<Rightarrow> ProcessedNode list \<Rightarrow> pipeline \<Rightarrow> pipeline" where
  "processChunk_commit r j processedChunk s =
     (let pd = processedData s;
          st = (stats pd)\<lparr> st_processedNodes :=
                   st_processedNodes (stats pd) + int (length (chunks s ! j)) \<rparr>
      in s\<lparr> processedData := pd\<lparr> processedNodes := processedNodes pd @ processedChunk, stats := st \<rparr>,
            processor := maybeEmitProgress r (st_totalNodes st) (st_processedNodes st)
                           (int j + 1) (int (length (chunks s))) (processor s) \<rparr>)"

text \<open>
  Whether attempt \<open>a\<close> on chunk \<open>j\<close> fails: by the failure the environment injects
  (\<open>work j a\<close>), or by \<open>processNode\<close> itself.
\<close>

definition attempt_failure ::
  "(nat \<Rightarrow> nat \<Rightarrow> js_error option) \<Rightarrow> nat \<Rightarrow> nat \<Rightarrow> flat_node list \<Rightarrow> js_error option" where
  "attempt_failure work j a chunk =
     (case work j a of
        Some e \<Rightarrow> Some e
      | None \<Rightarrow> (case processNodes chunk of Inl e \<Rightarrow> Some e | Inr pc \<Rightarrow> None))"

fun is_settled :: "phase \<Rightarrow> bool" where
  "is_settled Fulfilled = True"
| "is_settled (Rejected e) = True"
| "is_settled _ = False"

text \<open>One resumption of the task of chunk \<open>j\<close>, with its effects on the shared state.\<close>

definition task_step ::
  "(nat \<Rightarrow> nat \<Rightarrow> js_error option) \<Rightarrow> nat \<Rightarrow> readings \<Rightarrow> pipeline \<Rightarrow> pipeline option" where
  "task_step work j r s =
     (if j < length (tasks s)
      then (let ph = tasks s ! j;
                failure = (case ph of Running a \<Rightarrow> attempt_failure work j a (chunks s ! j) | _ \<Rightarrow> None)
            in case processChunkWithRetries_step (maxRetriesPerChunk (config (processor s)))
                      (abortController (processor s) = Some True) failure ph of
                 None \<Rightarrow> None
               | Some (ph', evs) \<Rightarrow>
                   (let s1 = s\<lparr> trace := trace s @ map (Pair j) evs \<rparr>;
                        s2 = (if ph' = Sleeping
                              then (case processNodes (chunks s ! j) of
                                      Inr pc \<Rightarrow> processChunk_commit r j pc s1
                                    | Inl e \<Rightarrow> s1)
                              else s1)
                    in Some (if is_settled ph' then finish_task j ph' s2
                             else s2\<lparr> tasks := (tasks s2)[j := ph'] \<rparr>)))
      else None)"

text \<open>\<open>abort()\<close>.\<close>

definition abort :: "pipeline \<Rightarrow> pipeline" where
  "abort s =
     s\<lparr> processor := (processor s)\<lparr> abortController :=
          (case abortController (processor s) of None \<Rightarrow> None | Some b \<Rightarrow> Some True) \<rparr> \<rparr>"

text \<open>
  What the event loop may run next: the main task, the task of a chunk (with what it
  reads from the clock and the heap), or a call of \<open>abort()\<close> by the user. A schedule
  is a list of such events; \<open>run\<close> is \<open>None\<close> when the schedule asks for a task that is
  not ready.
\<close>

datatype event = Main | Task nat readings | AbortCall

fun step :: "(nat \<Rightarrow> nat \<Rightarrow> js_error option) \<Rightarrow> event \<Rightarrow> pipeline \<Rightarrow> pipeline option" where
  "step work Main s = main_step s"
| "step work (Task j r) s = task_step work j r s"
| "step work AbortCall s = Some (abort s)"

fun run :: "(nat \<Rightarrow> nat \<Rightarrow> js_error option) \<Rightarrow> event list \<Rightarrow> pipeline \<Rightarrow> pipeline option" where
  "run work [] s = Some s"
| "run work (e # es) s = (case step work e s of None \<Rightarrow> None | Some s' \<Rightarrow> run work es s')"

text \<open>
  The synchronous beginning of \<open>processLargeFigmaFile\<close>, up to the first yield of the
  submission loop. \<open>None\<close>: \<open>createChunks\<close> does not return.
\<close>

definition processLargeFigmaFile ::
  "LargeFileProcessor \<Rightarrow> figma_node \<Rightarrow> bool \<Rightarrow> int \<Rightarrow> pipeline option" where
  "processLargeFigmaFile this document onProgress now =
     (let this1 = this\<lparr> progressCallback := onProgress, abortController := Some False,
                        memoryCheckInterval := True \<rparr>;
          allNodes = flattenDocumentTree document 0
      in case createChunks allNodes (chunkSize (config this1)) of
           None \<Rightarrow> None
         | Some cs \<Rightarrow>
             Some (main_block
               \<lparr> processor = this1, chunks = cs,
                 processedData =
                   \<lparr> originalData = document, processedNodes = [],
                     stats = \<lparr> st_totalNodes = int (length allNodes), st_processedNodes = 0,
                               startTime = now \<rparr> \<rparr>,
                 semaphore = Semaphore_constructor (maxConcurrentChunks (config this1)),
                 loop_i = 0, main = InLoop, tasks = replicate (length cs) Unsubmitted,
                 allRejected = None, trace = [] \<rparr>))"

text \<open>Environments for the examples.\<close>

definition no_failures :: "nat \<Rightarrow> nat \<Rightarrow> js_error option" where
  "no_failures j a = None"

definition chunk_fails :: "nat \<Rightarrow> nat \<Rightarrow> nat \<Rightarrow> js_error option" where
  "chunk_fails bad j a = (if j = bad then Some (ChunkFailure ''injected failure'') else None)"

definition at_time :: "int \<Rightarrow> readings" where
  "at_time t = \<lparr>now_emit = t, now_eta = t, memory = 10\<rparr>"

definition processor_with :: "int \<Rightarrow> int \<Rightarrow> int \<Rightarrow> LargeFileProcessor" where
  "processor_with csize concurrency retries =
     default_processor\<lparr> config := LargeFileProcessor_constructor
        (empty_config\<lparr> opt_chunkSize := Some csize, opt_maxConcurrentChunks := Some concurrency,
                        opt_maxRetriesPerChunk := Some retries \<rparr>) \<rparr>"

section \<open>Sessions of the real-time processor\<close>

record RealTimeProcessingConfig =
  enableWebSocket :: bool
  enableServerSentEvents :: bool
  batchSize :: int
  processingInterval :: int
  enableProgressiveRendering :: bool
  enableIncrementalUpdates :: bool

text \<open>The four values of \<open>ProcessingSession.status\<close>.\<close>

datatype session_status = Active | Paused | Completed | Error

record ProcessingSession =
  ses_id :: string
  ses_startTime :: int
  ses_totalNodes :: nat
  ses_processedNodes :: nat
  status :: session_status
  ses_config :: RealTimeProcessingConfig

text \<open>
  Events as the listeners receive them, without their timestamps. The data of a
  \<open>complete\<close> event emitted by the main thread is the session object, given by its
  address.
\<close>

datatype event_type = EvProgress | EvComplete | EvError | EvNodeProcessed | EvBatchComplete

datatype event_data =
    BatchData nat nat nat nat
  | SessionData nat
  | NodeData string string
  | ErrorData string
  | WorkerData js_any

record ProcessingEvent =
  ev_type :: event_type
  ev_data :: event_data
  ev_sessionId :: string

datatype to_worker = START_PROCESSING | PAUSE | RESUME

datatype from_worker = PROGRESS js_any | COMPLETE js_any | ERROR "string option"

text \<open>
  A \<open>RealTimeProcessor\<close>. Session objects live in \<open>objects\<close> and are referred to by their
  index there: the map \<open>sessions\<close> and the local variable \<open>session\<close> of
  \<open>processInMainThread\<close> may refer to the same object. A listener is known by a number;
  \<open>dispatched\<close> records which listener was called with which event. For each live
  worker, \<open>workers\<close> holds the messages posted to it.
\<close>

record RealTimeProcessor =
  rt_config :: RealTimeProcessingConfig
  objects :: "ProcessingSession list"
  sessions :: "string \<Rightarrow> nat option"
  eventListeners :: "string \<Rightarrow> nat list option"
  workers :: "string \<Rightarrow> to_worker list option"
  dispatched :: "(nat \<times> ProcessingEvent) list"

definition set_status :: "nat \<Rightarrow> session_status \<Rightarrow> RealTimeProcessor \<Rightarrow> RealTimeProcessor" where
  "set_status ref st p = p\<lparr> objects := (objects p)[ref := (objects p ! ref)\<lparr> status := st \<rparr>] \<rparr>"

definition emitEvent :: "string \<Rightarrow> ProcessingEvent \<Rightarrow> RealTimeProcessor \<Rightarrow> RealTimeProcessor" where
  "emitEvent sessionId ev p =
     (let listeners = (case eventListeners p sessionId of None \<Rightarrow> [] | Some ls \<Rightarrow> ls)
      in p\<lparr> dispatched := dispatched p @ map (\<lambda>l. (l, ev)) listeners \<rparr>)"

definition addEventListener :: "string \<Rightarrow> nat \<Rightarrow> RealTimeProcessor \<Rightarrow> RealTimeProcessor" where
  "addEventListener sessionId listener p =
     (let ls = (case eventListeners p sessionId of None \<Rightarrow> [] | Some ls \<Rightarrow> ls)
      in p\<lparr> eventListeners := (eventListeners p)(sessionId \<mapsto> ls @ [listener]) \<rparr>)"

definition removeEventListener :: "string \<Rightarrow> nat \<Rightarrow> RealTimeProcessor \<Rightarrow> RealTimeProcessor" where
  "removeEventListener sessionId listener p =
     (case eventListeners p sessionId of
        None \<Rightarrow> p
      | Some ls \<Rightarrow> p\<lparr> eventListeners := (eventListeners p)(sessionId \<mapsto> remove1 listener ls) \<rparr>)"

definition post :: "string \<Rightarrow> to_worker \<Rightarrow> RealTimeProcessor \<Rightarrow> RealTimeProcessor" where
  "post sessionId msg p =
     (case workers p sessionId of
        None \<Rightarrow> p
      | Some msgs \<Rightarrow> p\<lparr> workers := (workers p)(sessionId \<mapsto> msgs @ [msg]) \<rparr>)"

definition pauseProcessing :: "string \<Rightarrow> RealTimeProcessor \<Rightarrow> RealTimeProcessor" where
  "pauseProcessing sessionId p =
     (let p1 = (case sessions p sessionId of None \<Rightarrow> p | Some ref \<Rightarrow> set_status ref Paused p)
      in post sessionId PAUSE p1)"

definition resumeProcessing :: "string \<Rightarrow> RealTimeProcessor \<Rightarrow> RealTimeProcessor" where
  "resumeProcessing sessionId p =
     (let p1 = (case sessions p sessionId of None \<Rightarrow> p | Some ref \<Rightarrow> set_status ref Active p)
      in post sessionId RESUME p1)"

definition stopProcessing :: "string \<Rightarrow> RealTimeProcessor \<Rightarrow> RealTimeProcessor" where
  "stopProcessing sessionId p =
     (let p1 = (case sessions p sessionId of None \<Rightarrow> p | Some ref \<Rightarrow> set_status ref Error p)
      in p1\<lparr> workers := (workers p1)(sessionId := None),
              sessions := (sessions p1)(sessionId := None),
              eventListeners := (eventListeners p1)(sessionId := None) \<rparr>)"

definition getSession :: "string \<Rightarrow> RealTimeProcessor \<Rightarrow> ProcessingSession option" where
  "getSession sessionId p =
     (case sessions p sessionId of None \<Rightarrow> None | Some ref \<Rightarrow> Some (objects p ! ref))"

definition handleError :: "string \<Rightarrow> string option \<Rightarrow> RealTimeProcessor \<Rightarrow> RealTimeProcessor" where
  "handleError sessionId message p =
     (let p1 = (case sessions p sessionId of None \<Rightarrow> p | Some ref \<Rightarrow> set_status ref Error p);
          text = (case message of None \<Rightarrow> ''Unknown error''
                  | Some m \<Rightarrow> if m = [] then ''Unknown error'' else m)
      in emitEvent sessionId
           \<lparr>ev_type = EvError, ev_data = ErrorData text, ev_sessionId = sessionId\<rparr> p1)"

fun handleWorkerMessage :: "string \<Rightarrow> from_worker \<Rightarrow> RealTimeProcessor \<Rightarrow> RealTimeProcessor" where
  "handleWorkerMessage sessionId (PROGRESS d) p =
     emitEvent sessionId \<lparr>ev_type = EvProgress, ev_data = WorkerData d, ev_sessionId = sessionId\<rparr> p"
| "handleWorkerMessage sessionId (COMPLETE d) p =
     (let p1 = (case sessions p sessionId of None \<Rightarrow> p | Some ref \<Rightarrow> set_status ref Completed p)
      in emitEvent sessionId
           \<lparr>ev_type = EvComplete, ev_data = WorkerData d, ev_sessionId = sessionId\<rparr> p1)"
| "handleWorkerMessage sessionId (ERROR m) p = handleError sessionId m p"

text \<open>
  \<open>processInMainThread\<close>, cut at its \<open>await\<close>s: waiting for the timer of node \<open>k\<close> of the
  current batch, waiting for the yield after the current batch, or returned.
\<close>

datatype mt_phase = InBatch nat | Yielded | Finished

record main_thread_run =
  rt :: RealTimeProcessor
  mt_sessionId :: string
  mt_session :: nat
  batches :: "figma_node list list"
  mt_i :: nat
  mt_phase :: mt_phase

text \<open>After the loop: the session is marked completed and the \<open>complete\<close> event emitted.\<close>

definition mt_finish :: "main_thread_run \<Rightarrow> main_thread_run" where
  "mt_finish s =
     s\<lparr> rt := emitEvent (mt_sessionId s)
                 \<lparr>ev_type = EvComplete, ev_data = SessionData (mt_session s),
                  ev_sessionId = mt_sessionId s\<rparr>
                 (set_status (mt_session s) Completed (rt s)),
        mt_phase := Finished \<rparr>"

text \<open>After \<open>processBatch\<close>: the counter grows, \<open>batch_complete\<close> is emitted, the loop yields.\<close>

definition mt_after_batch :: "main_thread_run \<Rightarrow> main_thread_run" where
  "mt_after_batch s =
     (let ref = mt_session s;
          batch = batches s ! mt_i s;
          obj = objects (rt s) ! ref;
          obj' = obj\<lparr> ses_processedNodes := ses_processedNodes obj + length batch \<rparr>;
          p1 = (rt s)\<lparr> objects := (objects (rt s))[ref := obj'] \<rparr>
      in s\<lparr> rt := emitEvent (mt_sessionId s)
                   \<lparr>ev_type = EvBatchComplete,
                    ev_data = BatchData (mt_i s) (length (batches s)) (ses_processedNodes obj')
                                (ses_totalNodes obj'),
                    ev_sessionId = mt_sessionId s\<rparr> p1,
            mt_phase := Yielded \<rparr>)"

text \<open>
  The head of the \<open>for\<close> loop: the loop condition, the check
  \<open>if (session.status !== 'active') break\<close>, and the start of \<open>processBatch\<close>.
\<close>

definition mt_head :: "main_thread_run \<Rightarrow> main_thread_run" where
  "mt_head s =
     (if mt_i s < length (batches s)
      then (if status (objects (rt s) ! mt_session s) \<noteq> Active then mt_finish s
            else if batches s ! mt_i s = [] then mt_after_batch s
            else s\<lparr> mt_phase := InBatch 0 \<rparr>)
      else mt_finish s)"

text \<open>One resumption of \<open>processInMainThread\<close> by a timer.\<close>

fun node_ident :: "figma_node \<Rightarrow> string \<times> string" where
  "node_ident (FigmaNode i n t p ch) = (i, n)"
| "node_ident Null = ([], [])"

definition mt_resume :: "main_thread_run \<Rightarrow> main_thread_run option" where
  "mt_resume s =
     (case mt_phase s of
        InBatch k \<Rightarrow>
          (let node = batches s ! mt_i s ! k;
               s1 = s\<lparr> rt := emitEvent (mt_sessionId s)
                              \<lparr>ev_type = EvNodeProcessed,
                               ev_data = NodeData (fst (node_ident node)) (snd (node_ident node)),
                               ev_sessionId = mt_sessionId s\<rparr> (rt s) \<rparr>
           in Some (if k + 1 < length (batches s ! mt_i s) then s1\<lparr> mt_phase := InBatch (k + 1) \<rparr>
                    else mt_after_batch s1))
      | Yielded \<Rightarrow> Some (mt_head (s\<lparr> mt_i := mt_i s + 1 \<rparr>))
      | Finished \<Rightarrow> None)"

text \<open>
  \<open>startProcessing\<close> where no \<open>Worker\<close> exists: the session is created and
  \<open>processInMainThread\<close> runs to its first \<open>await\<close>. The outer \<open>None\<close> stands for a
  \<open>createBatches\<close> that does not return.
\<close>

definition startProcessing_mainThread ::
  "RealTimeProcessor \<Rightarrow> figma_node \<Rightarrow> string \<Rightarrow> nat option \<Rightarrow> int \<Rightarrow> (js_error + main_thread_run) option" where
  "startProcessing_mainThread p document sessionId onEvent now =
     (case countNodes document of
        Inl e \<Rightarrow> Some (Inl e)
      | Inr n \<Rightarrow>
          (let session = \<lparr> ses_id = sessionId, ses_startTime = now, ses_totalNodes = n,
                           ses_processedNodes = 0, status = Active, ses_config = rt_config p \<rparr>;
               ref = length (objects p);
               p1 = p\<lparr> objects := objects p @ [session], sessions := (sessions p)(sessionId \<mapsto> ref) \<rparr>;
               p2 = (case onEvent of None \<Rightarrow> p1 | Some l \<Rightarrow> addEventListener sessionId l p1)
           in case flattenNodes document of
                Inl e \<Rightarrow> Some (Inl e)
              | Inr nodes \<Rightarrow>
                  (case createBatches nodes (batchSize (rt_config p2)) of
                     None \<Rightarrow> None
                   | Some bs \<Rightarrow>
                       Some (Inr (mt_head \<lparr> rt = p2, mt_sessionId = sessionId, mt_session = ref,
                                           batches = bs, mt_i = 0, mt_phase = InBatch 0 \<rparr>)))))"

text \<open>\<open>startProcessing\<close> where a \<open>Worker\<close> exists: the work is posted to a new worker.\<close>

definition startProcessing_worker ::
  "RealTimeProcessor \<Rightarrow> figma_node \<Rightarrow> string \<Rightarrow> nat option \<Rightarrow> int \<Rightarrow> js_error + RealTimeProcessor" where
  "startProcessing_worker p document sessionId onEvent now =
     (case countNodes document of
        Inl e \<Rightarrow> Inl e
      | Inr n \<Rightarrow>
          (let session = \<lparr> ses_id = sessionId, ses_startTime = now, ses_totalNodes = n,
                           ses_processedNodes = 0, status = Active, ses_config = rt_config p \<rparr>;
               ref = length (objects p);
               p1 = p\<lparr> objects := objects p @ [session], sessions := (sessions p)(sessionId \<mapsto> ref) \<rparr>;
               p2 = (case onEvent of None \<Rightarrow> p1 | Some l \<Rightarrow> addEventListener sessionId l p1)
           in Inr (p2\<lparr> workers := (workers p2)(sessionId \<mapsto> [START_PROCESSING]) \<rparr>)))"

text \<open>
  What may happen next while \<open>processInMainThread\<close> runs: one of its timers fires, or the
  caller uses the control interface.
\<close>

datatype control = TimerFires | PauseCall string | ResumeCall string | StopCall string

fun mt_step :: "control \<Rightarrow> main_thread_run \<Rightarrow> main_thread_run option" where
  "mt_step TimerFires s = mt_resume s"
| "mt_step (PauseCall sid) s = Some (s\<lparr> rt := pauseProcessing sid (rt s) \<rparr>)"
| "mt_step (ResumeCall sid) s = Some (s\<lparr> rt := resumeProcessing sid (rt s) \<rparr>)"
| "mt_step (StopCall sid) s = Some (s\<lparr> rt := stopProcessing sid (rt s) \<rparr>)"

fun mt_run :: "control list \<Rightarrow> main_thread_run \<Rightarrow> main_thread_run option" where
  "mt_run [] s = Some s"
| "mt_run (c # cs) s = (case mt_step c s of None \<Rightarrow> None | Some s' \<Rightarrow> mt_run cs s')"

text \<open>The status of the session object a run works on, and its counter.\<close>

definition run_status :: "main_thread_run \<Rightarrow> session_status" where
  "run_status s = status (objects (rt s) ! mt_session s)"

definition run_processed :: "main_thread_run \<Rightarrow> nat" where
  "run_processed s = ses_processedNodes (objects (rt s) ! mt_session s)"

definition run_total :: "main_thread_run \<Rightarrow> nat" where
  "run_total s = ses_totalNodes (objects (rt s) ! mt_session s)"

text \<open>The transitions the specification allows (it names a fifth status, aborted, which
  the type does not have).\<close>

definition allowed_transition :: "session_status \<Rightarrow> session_status \<Rightarrow> bool" where
  "allowed_transition a b \<longleftrightarrow>
     (a = Active \<and> (b = Paused \<or> b = Completed \<or> b = Error)) \<or> (a = Paused \<and> b = Active)"

definition new_RealTimeProcessor :: "RealTimeProcessingConfig \<Rightarrow> RealTimeProcessor" where
  "new_RealTimeProcessor c =
     \<lparr> rt_config = c, objects = [], sessions = (\<lambda>k. None), eventListeners = (\<lambda>k. None),
       workers = (\<lambda>k. None), dispatched = [] \<rparr>"

definition rt_config_with :: "int \<Rightarrow> RealTimeProcessingConfig" where
  "rt_config_with n =
     \<lparr> enableWebSocket = False, enableServerSentEvents = False, batchSize = n,
       processingInterval = 100, enableProgressiveRendering = True,
       enableIncrementalUpdates = True \<rparr>"

text \<open>
  Example: no \<open>Worker\<close>, two nodes in batches of one; \<open>pauseProcessing\<close> is called while
  the first batch is in flight, the timers fire, and later \<open>resumeProcessing\<close> is called.
\<close>

definition paused_in_main_thread :: "control list \<Rightarrow> main_thread_run option" where
  "paused_in_main_thread cs =
     (case startProcessing_mainThread (new_RealTimeProcessor (rt_config_with 1))
             (frame ''0'' [leaf ''1'']) ''s'' (Some 0) 1000 of
        Some (Inr s) \<Rightarrow> mt_run cs s
      | _ \<Rightarrow> None)"

text \<open>Example: no \<open>Worker\<close>, a single node; the run completes, then the caller pauses.\<close>

definition completed_then :: "control list \<Rightarrow> main_thread_run option" where
  "completed_then cs =
     (case startProcessing_mainThread (new_RealTimeProcessor (rt_config_with 10))
             (leaf ''1'') ''s'' None 1000 of
        Some (Inr s) \<Rightarrow> mt_run ([TimerFires, TimerFires] @ cs) s
      | _ \<Rightarrow> None)"


text \<open>Example: a processor that knows one session, \<open>''s''\<close>, in the given status.\<close>

definition one_session :: "session_status \<Rightarrow> RealTimeProcessor" where
  "one_session st =
     (new_RealTimeProcessor (rt_config_with 10))
       \<lparr> objects := [\<lparr> ses_id = ''s'', ses_startTime = 1000, ses_totalNodes = 2,
                       ses_processedNodes = 1, status = st,
                       ses_config = rt_config_with 10 \<rparr>],
         sessions := (\<lambda>k. if k = ''s'' then Some 0 else None) \<rparr>"

definition one_session_run :: "session_status \<Rightarrow> main_thread_run" where
  "one_session_run st =
     \<lparr> rt = one_session st, mt_sessionId = ''s'', mt_session = 0,
       batches = [[leaf ''0''], [leaf ''1'']], mt_i = 1, mt_phase = Yielded \<rparr>"


section \<open>Observations and invariants of a run\<close>

text \<open>The executions begun so far, as pairs of chunk and attempt.\<close>

definition started :: "pipeline \<Rightarrow> (nat \<times> nat) list" where
  "started s =
     concat (map (\<lambda>(j, e). case e of Executed a \<Rightarrow> [(j, a)] | Waited ms \<Rightarrow> []) (trace s))"

fun is_settled_main :: "main_state \<Rightarrow> bool" where
  "is_settled_main (Settled out) = True"
| "is_settled_main _ = False"

definition settled :: "pipeline \<Rightarrow> bool" where
  "settled s = is_settled_main (main s)"

fun is_returned :: "main_state \<Rightarrow> bool" where
  "is_returned (Settled (Returned d)) = True"
| "is_returned _ = False"

text \<open>A task that is suspended at an \<open>await\<close> of its own.\<close>

fun active :: "phase \<Rightarrow> bool" where
  "active Granted = True"
| "active (Running a) = True"
| "active Sleeping = True"
| "active (Backoff a) = True"
| "active _ = False"

text \<open>
  What the main task's state says about the tasks: returned data means every chunk's
  promise was fulfilled and the data are the \<open>processedData\<close>; a thrown error is the
  \<open>AbortError\<close> or the error of a rejected chunk.
\<close>

fun main_consistent :: "pipeline \<Rightarrow> main_state \<Rightarrow> bool" where
  "main_consistent s (Settled (Returned d)) \<longleftrightarrow> all_fulfilled (tasks s) \<and> d = processedData s"
| "main_consistent s (Settled (Thrown e)) \<longleftrightarrow>
     e = AbortError \<or> (\<exists>j < length (tasks s). tasks s ! j = Rejected e)"
| "main_consistent s _ \<longleftrightarrow> True"

definition pipe_inv :: "pipeline \<Rightarrow> bool" where
  "pipe_inv s \<longleftrightarrow>
     length (tasks s) = length (chunks s) \<and>
     (\<forall>j < length (tasks s). loop_i s \<le> j \<longrightarrow> tasks s ! j = Unsubmitted) \<and>
     distinct (queue (semaphore s)) \<and>
     (\<forall>w \<in> set (queue (semaphore s)). w < length (tasks s) \<and> tasks s ! w = Waiting) \<and>
     (\<forall>e. allRejected s = Some e \<longrightarrow> (\<exists>j < length (tasks s). tasks s ! j = Rejected e)) \<and>
     main_consistent s (main s)"

text \<open>
  Example runs. \<open>three_chunks\<close>: three nodes in chunks of one, one permit, no failures.
  \<open>twelve_chunks\<close>: twelve nodes in chunks of one, one permit, no failures.
  \<open>single_chunk\<close>: one node. \<open>failing_run bad\<close>: two nodes in chunks of one, a single
  attempt per chunk, every attempt on chunk \<open>bad\<close> fails.
\<close>

definition three_chunks :: "event list \<Rightarrow> pipeline option" where
  "three_chunks es =
     (case processLargeFigmaFile (processor_with 1 1 3) (frame ''0'' [leaf ''1'', leaf ''2''])
             True 1000 of
        None \<Rightarrow> None
      | Some s \<Rightarrow> run no_failures es s)"

definition twelve_chunks :: "event list \<Rightarrow> pipeline option" where
  "twelve_chunks es =
     (case processLargeFigmaFile (processor_with 1 1 3)
             (frame ''0'' [leaf ''1'', leaf ''2'', leaf ''3'', leaf ''4'', leaf ''5'', leaf ''6'',
                           leaf ''7'', leaf ''8'', leaf ''9'', leaf ''10'', leaf ''11''])
             True 1000 of
        None \<Rightarrow> None
      | Some s \<Rightarrow> run no_failures es s)"

definition single_chunk :: "event list \<Rightarrow> pipeline option" where
  "single_chunk es =
     (case processLargeFigmaFile (processor_with 50 3 3) (leaf ''1'') True 1000 of
        None \<Rightarrow> None
      | Some s \<Rightarrow> run no_failures es s)"

definition failing_run :: "nat \<Rightarrow> event list \<Rightarrow> pipeline option" where
  "failing_run bad es =
     (case processLargeFigmaFile (processor_with 1 3 1) (frame ''0'' [leaf ''1'']) True 1000 of
        None \<Rightarrow> None
      | Some s \<Rightarrow> run (chunk_fails bad) es s)"

definition tick :: "nat \<Rightarrow> event" where
  "tick j = Task j (at_time 1001)"


text \<open>
  The permits of a run: a chunk holds a permit from the moment the semaphore hands it
  one until its task ends, and executes (is inside \<open>processChunk\<close>) during part of
  that time.
\<close>

fun executing :: "phase \<Rightarrow> bool" where
  "executing (Running a) = True"
| "executing Sleeping = True"
| "executing _ = False"

definition permits_ok :: "pipeline \<Rightarrow> bool" where
  "permits_ok s \<longleftrightarrow>
     0 \<le> permits (semaphore s) \<and>
     int (length (filter active (tasks s))) + permits (semaphore s) =
       maxConcurrentChunks (config (processor s))"


text \<open>
  What the task of chunk \<open>j\<close> did so far, and the events of \<open>a\<close> failed attempts, each
  followed by its backoff pause.
\<close>

definition chunk_trace :: "nat \<Rightarrow> pipeline \<Rightarrow> retry_event list" where
  "chunk_trace j s = map snd (filter (\<lambda>ce. fst ce = j) (trace s))"

definition failed_attempts :: "nat \<Rightarrow> retry_event list" where
  "failed_attempts a = concat (map (\<lambda>k. [Executed k, Waited (100 * 2 ^ (k + 1))]) [0 ..< a])"

text \<open>
  How the phase of a chunk and its trace belong together in a run without \<open>abort()\<close>;
  \<open>fails a\<close> is the failure of attempt \<open>a\<close> on that chunk, if it fails.
\<close>

fun trace_ok :: "int \<Rightarrow> (nat \<Rightarrow> js_error option) \<Rightarrow> phase \<Rightarrow> retry_event list \<Rightarrow> bool" where
  "trace_ok m fails (Running a) tr \<longleftrightarrow> int a < m \<and> tr = failed_attempts a @ [Executed a]"
| "trace_ok m fails (Backoff a) tr \<longleftrightarrow> int a < m \<and> tr = failed_attempts a"
| "trace_ok m fails Sleeping tr \<longleftrightarrow>
     (\<exists>a < nat m. fails a = None \<and> tr = failed_attempts a @ [Executed a])"
| "trace_ok m fails Fulfilled tr \<longleftrightarrow>
     (m \<le> 0 \<and> tr = []) \<or> (\<exists>a < nat m. fails a = None \<and> tr = failed_attempts a @ [Executed a])"
| "trace_ok m fails (Rejected e) tr \<longleftrightarrow>
     1 \<le> m \<and> fails (nat m - 1) = Some e \<and> tr = retry_schedule 0 (nat m)"
| "trace_ok m fails _ tr \<longleftrightarrow> tr = []"

definition retry_inv :: "(nat \<Rightarrow> nat \<Rightarrow> js_error option) \<Rightarrow> pipeline \<Rightarrow> bool" where
  "retry_inv work s \<longleftrightarrow>
     abortController (processor s) \<noteq> Some True \<and>
     (\<forall>e. main s = Settled (Thrown e) \<longrightarrow> (\<exists>k < length (tasks s). tasks s ! k = Rejected e)) \<and>
     (\<forall>k < length (tasks s).
        trace_ok (maxRetriesPerChunk (config (processor s)))
          (\<lambda>a. attempt_failure work k a (chunks s ! k)) (tasks s ! k) (chunk_trace k s))"

text \<open>
  What keeps a run going: a chunk waits only in the semaphore's queue, the queue is
  non-empty only when no permit is left, the loop has submitted every chunk before it
  reaches \<open>Promise.all\<close>, and \<open>Promise.all\<close> has seen every rejection.
\<close>

definition live_inv :: "pipeline \<Rightarrow> bool" where
  "live_inv s \<longleftrightarrow>
     (queue (semaphore s) \<noteq> [] \<longrightarrow> permits (semaphore s) \<le> 0) \<and>
     (\<forall>k < length (tasks s). tasks s ! k = Waiting \<longrightarrow> k \<in> set (queue (semaphore s))) \<and>
     (\<forall>k < length (tasks s). k < loop_i s \<longrightarrow> tasks s ! k \<noteq> Unsubmitted) \<and>
     (main s = AwaitAll \<longrightarrow> length (chunks s) \<le> loop_i s) \<and>
     (main s = AwaitAll \<and> allRejected s = None \<longrightarrow>
        (\<forall>k < length (tasks s). \<forall>e. tasks s ! k \<noteq> Rejected e))"

text \<open>
  A bound on the resumptions a run still has before it: every resumption of the main
  task or of a chunk's task lowers it.
\<close>

fun task_rank :: "int \<Rightarrow> phase \<Rightarrow> nat" where
  "task_rank m Unsubmitted = 2 * nat m + 6"
| "task_rank m Waiting = 2 * nat m + 5"
| "task_rank m ph = phase_rank m ph"

fun main_rank :: "main_state \<Rightarrow> nat" where
  "main_rank InLoop = 2"
| "main_rank AwaitAll = 1"
| "main_rank (Settled out) = 0"

definition run_rank :: "pipeline \<Rightarrow> nat" where
  "run_rank s =
     main_rank (main s) +
     sum_list (map (task_rank (maxRetriesPerChunk (config (processor s)))) (tasks s))"

text \<open>
  More example runs, each on two nodes in chunks of one with every attempt on chunk 1
  failing. \<open>retrying_run\<close>: one permit, two attempts per chunk. \<open>zero_retries_run\<close>:
  one permit, \<open>maxRetriesPerChunk = 0\<close>. \<open>no_permit_run\<close>: three attempts per chunk,
  \<open>maxConcurrentChunks = 0\<close>.
\<close>

definition retrying_run :: "event list \<Rightarrow> pipeline option" where
  "retrying_run es =
     (case processLargeFigmaFile (processor_with 1 1 2) (frame ''0'' [leaf ''1'']) True 1000 of
        None \<Rightarrow> None
      | Some s \<Rightarrow> run (chunk_fails 1) es s)"

definition zero_retries_run :: "event list \<Rightarrow> pipeline option" where
  "zero_retries_run es =
     (case processLargeFigmaFile (processor_with 1 1 0) (frame ''0'' [leaf ''1'']) True 1000 of
        None \<Rightarrow> None
      | Some s \<Rightarrow> run (chunk_fails 1) es s)"

definition no_permit_run :: "event list \<Rightarrow> pipeline option" where
  "no_permit_run es =
     (case processLargeFigmaFile (processor_with 1 0 3) (frame ''0'' [leaf ''1'']) True 1000 of
        None \<Rightarrow> None
      | Some s \<Rightarrow> run (chunk_fails 1) es s)"


section \<open>Properties of chunking\<close>

lemma createChunks_loop_diverges:
  "createChunks_loop array csize i acc0 = Some y \<Longrightarrow> \<not> (csize \<le> 0 \<and> i < int (length array))"
proof (rule createChunks_loop.raw_induct
        [where P = "\<lambda>array csize i acc0 y. \<not> (csize \<le> 0 \<and> i < int (length array))"])
  fix f :: "'a list \<Rightarrow> int \<Rightarrow> int \<Rightarrow> 'a list list \<Rightarrow> 'a list list option"
    and xs :: "'a list" and c j :: int and acc r :: "'a list list"
  assume ih: "\<And>xs c j acc r. f xs c j acc = Some r \<Longrightarrow> \<not> (c \<le> 0 \<and> j < int (length xs))"
    and eq: "(if j < int (length xs) then f xs c (j + c) (acc @ [js_slice xs j (j + c)]) else Some acc) = Some r"
  show "\<not> (c \<le> 0 \<and> j < int (length xs))"
  proof
    assume h: "c \<le> 0 \<and> j < int (length xs)"
    with eq have "f xs c (j + c) (acc @ [js_slice xs j (j + c)]) = Some r" by simp
    from ih[OF this] h show False by simp
  qed
qed

lemma createBatches_loop_diverges:
  "createBatches_loop array csize i acc0 = Some y \<Longrightarrow> \<not> (csize \<le> 0 \<and> i < int (length array))"
proof (rule createBatches_loop.raw_induct
        [where P = "\<lambda>array csize i acc0 y. \<not> (csize \<le> 0 \<and> i < int (length array))"])
  fix f :: "'a list \<Rightarrow> int \<Rightarrow> int \<Rightarrow> 'a list list \<Rightarrow> 'a list list option"
    and xs :: "'a list" and c j :: int and acc r :: "'a list list"
  assume ih: "\<And>xs c j acc r. f xs c j acc = Some r \<Longrightarrow> \<not> (c \<le> 0 \<and> j < int (length xs))"
    and eq: "(if j < int (length xs) then f xs c (j + c) (acc @ [js_slice xs j (j + c)]) else Some acc) = Some r"
  show "\<not> (c \<le> 0 \<and> j < int (length xs))"
  proof
    assume h: "c \<le> 0 \<and> j < int (length xs)"
    with eq have "f xs c (j + c) (acc @ [js_slice xs j (j + c)]) = Some r" by simp
    from ih[OF this] h show False by simp
  qed
qed

lemma js_slice_chunk:
  assumes "0 \<le> i" "0 \<le> c"
  shows "js_slice xs i (i + c) = take (nat c) (drop (nat i) xs)"
proof -
  consider (inside) "i + c \<le> int (length xs)"
    | (overlap) "i \<le> int (length xs)" "int (length xs) < i + c"
    | (beyond) "int (length xs) < i"
    by linarith
  then show ?thesis
  proof cases
    case inside
    then have "nat (i + c - i) = nat c" by simp
    with inside assms show ?thesis by (simp add: js_slice_def Let_def min_def)
  next
    case overlap
    then have "length (drop (nat i) xs) \<le> nat c"
      and "length (drop (nat i) xs) \<le> nat (int (length xs) - i)"
      using assms by auto
    then show ?thesis using overlap assms by (simp add: js_slice_def Let_def min_def)
  next
    case beyond
    then show ?thesis using assms by (simp add: js_slice_def Let_def min_def)
  qed
qed

lemma createChunks_loop_refines:
  "1 \<le> c \<Longrightarrow> 0 \<le> i \<Longrightarrow>
   createChunks_loop xs c i acc = Some (acc @ partition_spec (nat c) (drop (nat i) xs))"
proof (induction "length xs - nat i" arbitrary: i acc rule: less_induct)
  case less
  show ?case
  proof (cases "i < int (length xs)")
    case True
    have m: "length xs - nat (i + c) < length xs - nat i" using True less.prems by linarith
    have nz: "nat c \<noteq> 0" "drop (nat i) xs \<noteq> []" using True less.prems by auto
    have d: "drop (nat c) (drop (nat i) xs) = drop (nat (i + c)) xs"
      using less.prems by (simp add: nat_add_distrib add.commute)
    show ?thesis
      apply (subst createChunks_loop.simps)
      apply (subst partition_spec.simps)
      using True less.prems nz d less.hyps[OF m, of "acc @ [js_slice xs i (i + c)]"]
      by (simp add: js_slice_chunk)
  next
    case False
    then show ?thesis
      apply (subst createChunks_loop.simps)
      apply (subst partition_spec.simps)
      by simp
  qed
qed

lemma createBatches_loop_refines:
  "1 \<le> c \<Longrightarrow> 0 \<le> i \<Longrightarrow>
   createBatches_loop xs c i acc = Some (acc @ partition_spec (nat c) (drop (nat i) xs))"
proof (induction "length xs - nat i" arbitrary: i acc rule: less_induct)
  case less
  show ?case
  proof (cases "i < int (length xs)")
    case True
    have m: "length xs - nat (i + c) < length xs - nat i" using True less.prems by linarith
    have nz: "nat c \<noteq> 0" "drop (nat i) xs \<noteq> []" using True less.prems by auto
    have d: "drop (nat c) (drop (nat i) xs) = drop (nat (i + c)) xs"
      using less.prems by (simp add: nat_add_distrib add.commute)
    show ?thesis
      apply (subst createBatches_loop.simps)
      apply (subst partition_spec.simps)
      using True less.prems nz d less.hyps[OF m, of "acc @ [js_slice xs i (i + c)]"]
      by (simp add: js_slice_chunk)
  next
    case False
    then show ?thesis
      apply (subst createBatches_loop.simps)
      apply (subst partition_spec.simps)
      by simp
  qed
qed

lemma concat_partition_spec: "0 < n \<Longrightarrow> concat (partition_spec n xs) = xs"
proof (induction n xs rule: partition_spec.induct)
  case (1 n xs)
  then show ?case by (subst partition_spec.simps) auto
qed

lemma partition_spec_bounds:
  "c \<in> set (partition_spec n xs) \<Longrightarrow> c \<noteq> [] \<and> length c \<le> n"
proof (induction n xs rule: partition_spec.induct)
  case (1 n xs)
  from "1.prems" show ?case
    apply (subst (asm) partition_spec.simps)
    using "1.IH" by (auto split: if_splits)
qed

lemma partition_spec_nth:
  "0 < n \<Longrightarrow> k < length (partition_spec n xs) \<Longrightarrow>
   partition_spec n xs ! k = take n (drop (k * n) xs)"
proof (induction n xs arbitrary: k rule: partition_spec.induct)
  case (1 n xs)
  show ?case
  proof (cases "xs = []")
    case True
    with "1.prems" show ?thesis by (simp add: partition_spec.simps)
  next
    case False
    have e: "partition_spec n xs = take n xs # partition_spec n (drop n xs)"
      using False "1.prems"(1) by (subst partition_spec.simps) simp
    show ?thesis
    proof (cases k)
      case 0
      then show ?thesis by (simp add: e)
    next
      case (Suc j)
      have "j < length (partition_spec n (drop n xs))" using "1.prems"(2) e Suc by simp
      from "1.IH"[OF _ "1.prems"(1) this] False "1.prems"(1)
      have "partition_spec n (drop n xs) ! j = take n (drop (j * n) (drop n xs))" by simp
      then show ?thesis by (simp add: e Suc add.commute)
    qed
  qed
qed

lemma length_partition_spec:
  "0 < n \<Longrightarrow> length (partition_spec n xs) = (length xs + n - 1) div n"
proof (induction n xs rule: partition_spec.induct)
  case (1 n xs)
  show ?case
  proof (cases "xs = []")
    case True
    then show ?thesis using "1.prems" by (simp add: partition_spec.simps)
  next
    case False
    have e: "partition_spec n xs = take n xs # partition_spec n (drop n xs)"
      using False "1.prems"(1) by (subst partition_spec.simps) simp
    have ih: "length (partition_spec n (drop n xs)) = (length xs - n + n - 1) div n"
      using "1.IH" False "1.prems" by simp
    show ?thesis
    proof (cases "n \<le> length xs")
      case True
      then have "length xs + n - 1 = (length xs - n + n - 1) + n" using "1.prems" by simp
      then have "(length xs + n - 1) div n = Suc ((length xs - n + n - 1) div n)"
        using "1.prems" by (metis div_add_self2 less_numeral_extra(3) Suc_eq_plus1)
      then show ?thesis using e ih by simp
    next
      case False2: False
      have "length xs + n - 1 = (length xs - 1) + 1 * n" using False by (cases xs) auto
      moreover have "(length xs - 1) < n" using False2 "1.prems" by simp
      ultimately have "(length xs + n - 1) div n = 1"
        by (metis div_mult_self1 div_less add_0 "1.prems" less_numeral_extra(3) add.commute)
      then show ?thesis using e ih False2 by simp
    qed
  qed
qed

section \<open>Properties of flattening\<close>

lemma flatten_children_concat:
  "flatten_children cs d = concat (map (\<lambda>c. flattenDocumentTree c (Suc d)) cs)"
  by (induction cs) auto

lemma flatten_length_aux:
  "length (flattenDocumentTree t d) = count_present t"
  "length (flatten_children cs d) = sum_list (map count_present cs)"
  by (induction t d and cs d rule: flattenDocumentTree_flatten_children.induct) auto

lemma node_at_Null [simp]: "node_at Null p = Null"
  by (cases p) auto

lemma flatten_sound_aux:
  "e \<in> set (flattenDocumentTree t d) \<Longrightarrow>
     fnode e \<noteq> Null \<and> (\<exists>p. node_at t p = fnode e \<and> depth e = d + length p)"
  "e \<in> set (flatten_children cs d) \<Longrightarrow>
     fnode e \<noteq> Null \<and> (\<exists>k p. k < length cs \<and> node_at (cs ! k) p = fnode e \<and> depth e = Suc d + length p)"
proof (induction t d and cs d arbitrary: e and e rule: flattenDocumentTree_flatten_children.induct)
  case (1 d)
  then show ?case by simp
next
  case (2 i n t p d)
  then have "fnode e \<noteq> Null \<and> node_at (FigmaNode i n t p None) [] = fnode e \<and> depth e = d + length ([]::nat list)" by simp
  then show ?case by blast
next
  case (3 i n t p cs d)
  show ?case
  proof (cases "e = \<lparr>fnode = FigmaNode i n t p (Some cs), depth = d\<rparr>")
    case True
    then have "fnode e \<noteq> Null \<and> node_at (FigmaNode i n t p (Some cs)) [] = fnode e \<and> depth e = d + length ([]::nat list)" by simp
    then show ?thesis by blast
  next
    case False
    with "3.prems" have "e \<in> set (flatten_children cs d)" by simp
    from "3.IH"[OF this] obtain k q where
      kq: "fnode e \<noteq> Null" "k < length cs" "node_at (cs ! k) q = fnode e" "depth e = Suc d + length q"
      by blast
    then have "node_at (FigmaNode i n t p (Some cs)) (k # q) = fnode e \<and> depth e = d + length (k # q)"
      by simp
    then show ?thesis using kq(1) by blast
  qed
next
  case (4 d)
  then show ?case by simp
next
  case (5 child rest d)
  from "5.prems" consider (a) "child \<noteq> Null" "e \<in> set (flattenDocumentTree child (d + 1))"
    | (b) "e \<in> set (flatten_children rest d)"
    by (auto split: if_splits)
  then show ?case
  proof cases
    case a
    from "5.IH"(1)[OF a] obtain p where "fnode e \<noteq> Null" "node_at child p = fnode e" "depth e = d + 1 + length p"
      by blast
    then have "fnode e \<noteq> Null \<and> 0 < length (child # rest) \<and> node_at ((child # rest) ! 0) p = fnode e \<and> depth e = Suc d + length p"
      by simp
    then show ?thesis by blast
  next
    case b
    from "5.IH"(2)[OF b] obtain k p where "fnode e \<noteq> Null" "k < length rest" "node_at (rest ! k) p = fnode e" "depth e = Suc d + length p"
      by blast
    then have "fnode e \<noteq> Null \<and> Suc k < length (child # rest) \<and> node_at ((child # rest) ! Suc k) p = fnode e \<and> depth e = Suc d + length p"
      by simp
    then show ?thesis by blast
  qed
qed

lemma flatten_head:
  "t \<noteq> Null \<Longrightarrow> \<exists>rest. flattenDocumentTree t d = \<lparr>fnode = t, depth = d\<rparr> # rest"
  by (cases "(t, d)" rule: flattenDocumentTree.cases) auto

lemma flatten_complete:
  "node_at t p \<noteq> Null \<Longrightarrow> \<lparr>fnode = node_at t p, depth = d + length p\<rparr> \<in> set (flattenDocumentTree t d)"
proof (induction p arbitrary: t d)
  case Nil
  then show ?case using flatten_head[of t d] by auto
next
  case (Cons k p)
  then obtain i n ty pl cs where t: "t = FigmaNode i n ty pl (Some cs)" and k: "k < length cs"
    by (cases "(t, k # p)" rule: node_at.cases) (auto split: if_splits)
  from Cons.prems t k have nn: "node_at (cs ! k) p \<noteq> Null" by simp
  from Cons.IH[OF nn, of "Suc d"] have "\<lparr>fnode = node_at (cs ! k) p, depth = Suc d + length p\<rparr> \<in> set (flattenDocumentTree (cs ! k) (Suc d))" .
  moreover have "cs ! k \<in> set cs" using k by simp
  ultimately have "\<lparr>fnode = node_at (cs ! k) p, depth = Suc d + length p\<rparr> \<in> set (flatten_children cs d)"
    unfolding flatten_children_concat by auto
  then show ?case using t k by simp
qed

lemma concat_drop_block:
  "i < length (concat xss) \<Longrightarrow>
   \<exists>k j. k < length xss \<and> j < length (xss ! k) \<and> concat xss ! i = xss ! k ! j \<and>
         drop i (concat xss) = drop j (xss ! k) @ concat (drop (Suc k) xss)"
proof (induction xss arbitrary: i)
  case Nil
  then show ?case by simp
next
  case (Cons xs xss)
  show ?case
  proof (cases "i < length xs")
    case True
    then have "0 < length (xs # xss) \<and> i < length ((xs # xss) ! 0) \<and> concat (xs # xss) ! i = (xs # xss) ! 0 ! i \<and>
         drop i (concat (xs # xss)) = drop i ((xs # xss) ! 0) @ concat (drop (Suc 0) (xs # xss))"
      by (simp add: nth_append)
    then show ?thesis by blast
  next
    case False
    then have "i - length xs < length (concat xss)" using Cons.prems by simp
    from Cons.IH[OF this] obtain k j where
      "k < length xss" "j < length (xss ! k)" "concat xss ! (i - length xs) = xss ! k ! j"
      "drop (i - length xs) (concat xss) = drop j (xss ! k) @ concat (drop (Suc k) xss)" by blast
    then have "Suc k < length (xs # xss) \<and> j < length ((xs # xss) ! Suc k) \<and> concat (xs # xss) ! i = (xs # xss) ! Suc k ! j \<and>
         drop i (concat (xs # xss)) = drop j ((xs # xss) ! Suc k) @ concat (drop (Suc (Suc k)) (xs # xss))"
      using False by (simp add: nth_append)
    then show ?thesis by blast
  qed
qed

lemma flatten_block:
  "i < length (flattenDocumentTree t d) \<Longrightarrow>
   \<exists>post. drop i (flattenDocumentTree t d) =
      flattenDocumentTree (fnode (flattenDocumentTree t d ! i)) (depth (flattenDocumentTree t d ! i)) @ post"
proof (induction t arbitrary: i d)
  case Null
  then show ?case by simp
next
  case (FigmaNode x1 x2 x3 x4 x5)
  show ?case
  proof (cases i)
    case 0
    then show ?thesis by (cases x5) auto
  next
    case (Suc i')
    with FigmaNode.prems obtain cs where x5: "x5 = Some cs" by (cases x5) auto
    let ?xss = "map (\<lambda>c. flattenDocumentTree c (Suc d)) cs"
    have fl: "flattenDocumentTree (FigmaNode x1 x2 x3 x4 x5) d =
        \<lparr>fnode = FigmaNode x1 x2 x3 x4 x5, depth = d\<rparr> # concat ?xss"
      using x5 by (simp add: flatten_children_concat)
    have "i' < length (concat ?xss)" using FigmaNode.prems Suc fl by simp
    from concat_drop_block[OF this] obtain k j where kj:
      "k < length cs" "j < length (flattenDocumentTree (cs ! k) (Suc d))"
      "concat ?xss ! i' = flattenDocumentTree (cs ! k) (Suc d) ! j"
      "drop i' (concat ?xss) = drop j (flattenDocumentTree (cs ! k) (Suc d)) @ concat (drop (Suc k) ?xss)"
      by auto
    have "cs ! k \<in> set cs" using kj(1) by simp
    then have "\<exists>post. drop j (flattenDocumentTree (cs ! k) (Suc d)) =
      flattenDocumentTree (fnode (flattenDocumentTree (cs ! k) (Suc d) ! j)) (depth (flattenDocumentTree (cs ! k) (Suc d) ! j)) @ post"
      using FigmaNode.IH[of cs "cs ! k" j "Suc d"] kj(2) x5 by simp
    then obtain post where "drop j (flattenDocumentTree (cs ! k) (Suc d)) =
      flattenDocumentTree (fnode (flattenDocumentTree (cs ! k) (Suc d) ! j)) (depth (flattenDocumentTree (cs ! k) (Suc d) ! j)) @ post"
      by blast
    then show ?thesis using kj(3,4) fl Suc by simp
  qed
qed

lemma countNodes_aux:
  "countNodes t = (if no_nulls t then Inr (count_present t) else Inl TypeError)"
  "countNodes_reduce cs acc =
     (if list_all no_nulls cs then Inr (acc + sum_list (map count_present cs)) else Inl TypeError)"
  by (induction t and cs acc rule: countNodes_countNodes_reduce.induct) auto

text \<open>
  C1 (as amended). For every tree, with a null root and null children allowed,
  \<open>flattenDocumentTree\<close> returns a list and raises nothing: nothing for \<open>null\<close>, and for
  a node the node itself at its depth followed by the flattenings of its children, in
  order, one level deeper. From the root at depth 0, the length of the result is the
  number of non-null nodes of the tree; every entry is a non-null node of the tree whose
  depth is the length of its path from the root; every non-null node of the tree occurs
  at that depth; and every entry is immediately followed by the entries of its own
  subtree, so a parent precedes all its descendants. \<open>countNodes\<close> returns the same
  number when neither the root nor any child entry is null, and raises a \<open>TypeError\<close>
  otherwise.
\<close>

theorem flattenDocumentTree_preorder:
  "flattenDocumentTree Null d = [] \<and>
   flattenDocumentTree (FigmaNode i n ty pl None) d = [\<lparr>fnode = FigmaNode i n ty pl None, depth = d\<rparr>] \<and>
   flattenDocumentTree (FigmaNode i n ty pl (Some cs)) d =
     \<lparr>fnode = FigmaNode i n ty pl (Some cs), depth = d\<rparr> #
       concat (map (\<lambda>c. flattenDocumentTree c (d + 1)) cs) \<and>
   length (flattenDocumentTree t 0) = count_present t \<and>
   (\<forall>e \<in> set (flattenDocumentTree t 0).
      fnode e \<noteq> Null \<and> (\<exists>p. node_at t p = fnode e \<and> depth e = length p)) \<and>
   (\<forall>p. node_at t p \<noteq> Null \<longrightarrow>
      \<lparr>fnode = node_at t p, depth = length p\<rparr> \<in> set (flattenDocumentTree t 0)) \<and>
   (\<forall>k < length (flattenDocumentTree t 0).
      \<exists>post. drop k (flattenDocumentTree t 0) =
        flattenDocumentTree (fnode (flattenDocumentTree t 0 ! k)) (depth (flattenDocumentTree t 0 ! k)) @ post) \<and>
   (no_nulls t \<longrightarrow> countNodes t = Inr (length (flattenDocumentTree t 0))) \<and>
   (\<not> no_nulls t \<longrightarrow> countNodes t = Inl TypeError)"
proof (intro conjI ballI allI impI)
  show "flattenDocumentTree (FigmaNode i n ty pl (Some cs)) d =
     \<lparr>fnode = FigmaNode i n ty pl (Some cs), depth = d\<rparr> #
       concat (map (\<lambda>c. flattenDocumentTree c (d + 1)) cs)"
    by (simp add: flatten_children_concat)
next
  fix e assume e: "e \<in> set (flattenDocumentTree t 0)"
  from flatten_sound_aux(1)[OF e] show "fnode e \<noteq> Null" by simp
  from flatten_sound_aux(1)[OF e] show "\<exists>p. node_at t p = fnode e \<and> depth e = length p" by simp
next
  fix p assume "node_at t p \<noteq> Null"
  from flatten_complete[OF this, of 0]
  show "\<lparr>fnode = node_at t p, depth = length p\<rparr> \<in> set (flattenDocumentTree t 0)" by simp
next
  fix k assume "k < length (flattenDocumentTree t 0)"
  from flatten_block[OF this]
  show "\<exists>post. drop k (flattenDocumentTree t 0) =
        flattenDocumentTree (fnode (flattenDocumentTree t 0 ! k)) (depth (flattenDocumentTree t 0 ! k)) @ post" .
qed (simp_all add: flatten_length_aux countNodes_aux)

theorem flattenDocumentTree_preorder_witness:
  "flattenDocumentTree (frame ''0'' [leaf ''1'', Null, frame ''2'' [leaf ''3'']]) 0 =
     [\<lparr>fnode = frame ''0'' [leaf ''1'', Null, frame ''2'' [leaf ''3'']], depth = 0\<rparr>,
      \<lparr>fnode = leaf ''1'', depth = 1\<rparr>,
      \<lparr>fnode = frame ''2'' [leaf ''3''], depth = 1\<rparr>,
      \<lparr>fnode = leaf ''3'', depth = 2\<rparr>] \<and>
   count_present (frame ''0'' [leaf ''1'', Null, frame ''2'' [leaf ''3'']]) = 4 \<and>
   node_at (frame ''0'' [leaf ''1'', Null, frame ''2'' [leaf ''3'']]) [2, 0] = leaf ''3'' \<and>
   \<lparr>fnode = leaf ''3'', depth = 2\<rparr>
      \<in> set (flattenDocumentTree (frame ''0'' [leaf ''1'', Null, frame ''2'' [leaf ''3'']]) 0) \<and>
   \<not> no_nulls (frame ''0'' [leaf ''1'', Null, frame ''2'' [leaf ''3'']]) \<and>
   countNodes (frame ''0'' [leaf ''1'', Null, frame ''2'' [leaf ''3'']]) = Inl TypeError \<and>
   no_nulls (frame ''0'' [leaf ''1'', leaf ''2'']) \<and>
   countNodes (frame ''0'' [leaf ''1'', leaf ''2'']) = Inr 3 \<and>
   length (flattenDocumentTree (frame ''0'' [leaf ''1'', leaf ''2'']) 0) = 3"
  using flattenDocumentTree_preorder
          [of 0 "''0''" "''frame''" "''FRAME''" no_payload "[leaf ''1'', Null, frame ''2'' [leaf ''3'']]"
              "frame ''0'' [leaf ''1'', Null, frame ''2'' [leaf ''3'']]"]
        flattenDocumentTree_preorder
          [of 0 "''0''" "''frame''" "''FRAME''" no_payload "[leaf ''1'', leaf ''2'']"
              "frame ''0'' [leaf ''1'', leaf ''2'']"]
  by (simp add: frame_def leaf_def)

text \<open>
  C1 as stated fails: on a null root, and on a tree with a null child entry, \<open>countNodes\<close>
  raises, so it does not return the length of the flattened sequence.
\<close>

theorem countNodes_null_counterexample:
  "countNodes Null \<noteq> Inr (length (flattenDocumentTree Null 0)) \<and>
   countNodes (frame ''0'' [leaf ''1'', Null]) \<noteq>
     Inr (length (flattenDocumentTree (frame ''0'' [leaf ''1'', Null]) 0))"
  by (simp add: frame_def leaf_def)

section \<open>Chunking at the call sites\<close>

lemma flattenNodes_no_nulls:
  "no_nulls t \<longrightarrow> flattenNodes t = Inr (map fnode (flattenDocumentTree t d))"
  "list_all no_nulls cs \<longrightarrow>
     (\<forall>acc. flattenNodes_forEach cs acc = Inr (acc @ map fnode (flatten_children cs d)))"
proof (induction t d and cs d rule: flattenDocumentTree_flatten_children.induct)
  case (1 d)
  then show ?case by simp
next
  case (2 i n t p d)
  then show ?case by simp
next
  case (3 i n t p cs d)
  then show ?case by simp
next
  case (4 d)
  then show ?case by simp
next
  case (5 child rest d)
  show ?case
  proof (intro impI allI)
    fix acc assume a: "list_all no_nulls (child # rest)"
    then have c: "no_nulls child" and r: "list_all no_nulls rest" by simp_all
    from c have nn: "child \<noteq> Null" by (cases child) auto
    from "5.IH"(1)[OF nn] c have fc: "flattenNodes child = Inr (map fnode (flattenDocumentTree child (d + 1)))"
      by simp
    from "5.IH"(2) r have fr: "\<And>acc. flattenNodes_forEach rest acc = Inr (acc @ map fnode (flatten_children rest d))"
      by simp
    show "flattenNodes_forEach (child # rest) acc = Inr (acc @ map fnode (flatten_children (child # rest) d))"
      using fc fr nn by simp
  qed
qed

text \<open>
  C10. For every array and every chunk size of at least 1, \<open>createChunks\<close> and
  \<open>createBatches\<close> return; the result is the ordered partition into contiguous slices:
  its concatenation is the array, no chunk is empty or longer than the chunk size, the
  \<open>k\<close>-th chunk is the slice starting at \<open>k * size\<close>, and there are
  \<open>\<lceil>length / size\<rceil>\<close> chunks. With a chunk size of 0 or less and a non-empty array
  neither loop returns. Nothing validates the size: the constructor stores whatever
  chunk size it is given, \<open>processLargeFigmaFile\<close> on a non-null document with a chunk
  size of 0 or less does not return, and neither does \<open>startProcessing\<close> in the main
  thread on a document without null entries with a batch size of 0 or less.
\<close>

theorem createChunks_partition:
  "(1 \<le> csize \<longrightarrow>
      (\<exists>cs. createChunks array csize = Some cs \<and> createBatches array csize = Some cs \<and>
            concat cs = array \<and>
            (\<forall>c \<in> set cs. c \<noteq> [] \<and> int (length c) \<le> csize) \<and>
            (\<forall>k < length cs. cs ! k = take (nat csize) (drop (k * nat csize) array)) \<and>
            length cs = (length array + nat csize - 1) div nat csize)) \<and>
   (csize \<le> 0 \<and> array \<noteq> [] \<longrightarrow>
      createChunks array csize = None \<and> createBatches array csize = None) \<and>
   chunkSize (LargeFileProcessor_constructor (overrides\<lparr>opt_chunkSize := Some csize\<rparr>)) = csize \<and>
   (chunkSize (config this) \<le> 0 \<and> document \<noteq> Null \<longrightarrow>
      processLargeFigmaFile this document onProgress now = None) \<and>
   (batchSize (rt_config p) \<le> 0 \<and> no_nulls document \<longrightarrow>
      startProcessing_mainThread p document sessionId onEvent now = None)"
proof (intro conjI impI)
  assume pos: "1 \<le> csize"
  let ?cs = "partition_spec (nat csize) array"
  have n: "0 < nat csize" using pos by simp
  have a: "createChunks array csize = Some ?cs"
    using createChunks_loop_refines[OF pos, of 0 array "[]"] by (simp add: createChunks_def)
  have b: "createBatches array csize = Some ?cs"
    using createBatches_loop_refines[OF pos, of 0 array "[]"] by (simp add: createBatches_def)
  have c: "\<forall>c \<in> set ?cs. c \<noteq> [] \<and> int (length c) \<le> csize"
    using partition_spec_bounds[of _ "nat csize" array] pos by fastforce
  have d: "\<forall>k < length ?cs. ?cs ! k = take (nat csize) (drop (k * nat csize) array)"
    using partition_spec_nth[OF n] by blast
  show "\<exists>cs. createChunks array csize = Some cs \<and> createBatches array csize = Some cs \<and>
            concat cs = array \<and>
            (\<forall>c \<in> set cs. c \<noteq> [] \<and> int (length c) \<le> csize) \<and>
            (\<forall>k < length cs. cs ! k = take (nat csize) (drop (k * nat csize) array)) \<and>
            length cs = (length array + nat csize - 1) div nat csize"
    using a b c d concat_partition_spec[OF n, of array] length_partition_spec[OF n, of array]
    by blast
next
  assume neg: "csize \<le> 0 \<and> array \<noteq> []"
  show "createChunks array csize = None"
  proof (cases "createChunks array csize")
    case (Some y)
    then show ?thesis
      using createChunks_loop_diverges[of array csize 0 "[]" y] neg
      by (simp add: createChunks_def)
  qed simp
next
  assume neg: "csize \<le> 0 \<and> array \<noteq> []"
  show "createBatches array csize = None"
  proof (cases "createBatches array csize")
    case (Some y)
    then show ?thesis
      using createBatches_loop_diverges[of array csize 0 "[]" y] neg
      by (simp add: createBatches_def)
  qed simp
next
  show "chunkSize (LargeFileProcessor_constructor (overrides\<lparr>opt_chunkSize := Some csize\<rparr>)) = csize"
    by (simp add: LargeFileProcessor_constructor_def orDefault_def)
next
  assume h: "chunkSize (config this) \<le> 0 \<and> document \<noteq> Null"
  then have ne: "flattenDocumentTree document 0 \<noteq> []"
    using flatten_head[of document 0] by auto
  have "createChunks (flattenDocumentTree document 0) (chunkSize (config this)) = None"
  proof (cases "createChunks (flattenDocumentTree document 0) (chunkSize (config this))")
    case (Some y)
    then show ?thesis
      using createChunks_loop_diverges[of "flattenDocumentTree document 0" "chunkSize (config this)" 0 "[]" y]
        h ne
      by (simp add: createChunks_def)
  qed simp
  then show "processLargeFigmaFile this document onProgress now = None"
    by (simp add: processLargeFigmaFile_def Let_def)
next
  assume h: "batchSize (rt_config p) \<le> 0 \<and> no_nulls document"
  then have cn: "countNodes document = Inr (count_present document)"
    by (simp add: countNodes_aux)
  from h have fn: "flattenNodes document = Inr (map fnode (flattenDocumentTree document 0))"
    using flattenNodes_no_nulls(1)[of document 0] by simp
  from h have "document \<noteq> Null" by (cases document) auto
  then have ne: "map fnode (flattenDocumentTree document 0) \<noteq> []"
    using flatten_head[of document 0] by auto
  have "createBatches (map fnode (flattenDocumentTree document 0)) (batchSize (rt_config p)) = None"
  proof (cases "createBatches (map fnode (flattenDocumentTree document 0)) (batchSize (rt_config p))")
    case (Some y)
    then show ?thesis
      using createBatches_loop_diverges
              [of "map fnode (flattenDocumentTree document 0)" "batchSize (rt_config p)" 0 "[]" y]
        h ne
      by (simp add: createBatches_def)
  qed simp
  then show "startProcessing_mainThread p document sessionId onEvent now = None"
    using cn fn
    by (cases onEvent) (simp_all add: startProcessing_mainThread_def Let_def addEventListener_def)
qed

theorem createChunks_partition_witness:
  "(1::int) \<le> 2 \<and>
   (\<exists>cs. createChunks [1, 2, 3, 4, 5 :: nat] 2 = Some cs \<and> concat cs = [1, 2, 3, 4, 5] \<and>
         (\<forall>c \<in> set cs. c \<noteq> [] \<and> int (length c) \<le> 2) \<and> length cs = 3) \<and>
   (0::int) \<le> 0 \<and> [7 :: nat] \<noteq> [] \<and>
   createChunks [7 :: nat] 0 = None \<and> createBatches [7 :: nat] 0 = None \<and>
   chunkSize (config (processor_with 0 3 3)) \<le> 0 \<and> leaf ''1'' \<noteq> Null \<and>
   processLargeFigmaFile (processor_with 0 3 3) (leaf ''1'') True 1000 = None \<and>
   batchSize (rt_config (new_RealTimeProcessor (rt_config_with 0))) \<le> 0 \<and> no_nulls (leaf ''1'') \<and>
   startProcessing_mainThread (new_RealTimeProcessor (rt_config_with 0)) (leaf ''1'') ''s'' None 1000 = None"
proof -
  have h1: "chunkSize (config (processor_with 0 3 3)) \<le> 0 \<and> leaf ''1'' \<noteq> Null \<and>
      batchSize (rt_config (new_RealTimeProcessor (rt_config_with 0))) \<le> 0 \<and> no_nulls (leaf ''1'')"
    by (simp add: processor_with_def LargeFileProcessor_constructor_def orDefault_def
          empty_config_def default_processor_def leaf_def new_RealTimeProcessor_def rt_config_with_def)
  from createChunks_partition
         [of 2 "[1, 2, 3, 4, 5 :: nat]" empty_config "processor_with 0 3 3" "leaf ''1''" True 1000
             "new_RealTimeProcessor (rt_config_with 0)" "''s''" None]
       createChunks_partition
         [of 0 "[7 :: nat]" empty_config "processor_with 0 3 3" "leaf ''1''" True 1000
             "new_RealTimeProcessor (rt_config_with 0)" "''s''" None]
       h1
  show ?thesis by auto
qed


section \<open>Properties of the permit pool\<close>

lemma sem_step_inv:
  assumes "sem_inv n st" "sem_step e st = Some st'"
  shows "sem_inv n st'"
proof (cases e)
  case (Acquire c)
  with assms show ?thesis
    by (auto simp: sem_inv_def acquire_def split: if_splits)
next
  case (Release c)
  with assms have c: "c \<in> set (holders st)" by (auto split: if_splits)
  then have "holders st \<noteq> []" by auto
  then have "int (length (holders st) - 1) = int (length (holders st)) - 1"
    by (cases "holders st") simp_all
  with c have l: "int (length (remove1 c (holders st))) = int (length (holders st)) - 1"
    by (simp add: length_remove1)
  show ?thesis
  proof (cases "queue (sem st)")
    case Nil
    with assms Release c l show ?thesis
      by (auto simp: sem_inv_def release_def Let_def)
  next
    case (Cons w ws)
    with assms Release c l show ?thesis
      by (auto simp: sem_inv_def release_def Let_def)
  qed
qed

lemma sem_run_inv:
  "sem_inv n st \<Longrightarrow> sem_run es st = Some st' \<Longrightarrow> sem_inv n st'"
proof (induction es arbitrary: st)
  case Nil
  then show ?case by simp
next
  case (Cons e es)
  then show ?case by (auto split: option.splits dest: sem_step_inv)
qed

section \<open>Properties of progress reporting\<close>

lemma spaced_snoc:
  "spaced th (es @ [z]) \<longleftrightarrow>
     spaced th es \<and> (es = [] \<or> fst z - fst (last es) > th \<or> is_final (snd z))"
proof (induction th es rule: spaced.induct)
  case (1 th)
  then show ?case by simp
next
  case (2 th x)
  then show ?case by simp
next
  case (3 th x y rest)
  then show ?case by auto
qed

lemma maybeEmitProgress_cases:
  "maybeEmitProgress r totalCount processed cur tot this =
     (if progressCallback this \<and>
         (now_emit r - lastProgressEmitTime this > progressThrottleMS (config this) \<or> processed = totalCount)
      then this\<lparr>lastProgressEmitTime := now_emit r,
                delivered := delivered this @
                  [(now_emit r, \<lparr>pr_totalNodes = totalCount, pr_processedNodes = processed,
                     currentChunk = cur, totalChunks = tot, memoryUsageMB = memory r,
                     estimatedTimeRemainingMS =
                       calculateETA (now_eta r) processed totalCount (this\<lparr>lastProgressEmitTime := now_emit r\<rparr>)\<rparr>)]\<rparr>
      else this)"
  by (auto simp: maybeEmitProgress_def Let_def)

lemma emit_update_inv:
  assumes "reporter_inv this"
  shows "reporter_inv (emit_update u this)"
  using assms
  by (auto simp: reporter_inv_def emit_update_def maybeEmitProgress_cases spaced_snoc is_final_def)

lemma emit_update_static:
  "config (emit_update u this) = config this"
  "progressCallback (emit_update u this) = progressCallback this"
  by (simp_all add: emit_update_def maybeEmitProgress_cases)

lemma emit_updates_inv:
  "reporter_inv this \<Longrightarrow> reporter_inv (emit_updates us this)"
  by (induction us arbitrary: this) (simp_all add: emit_update_inv)

lemma emit_updates_static:
  "config (emit_updates us this) = config this"
  "progressCallback (emit_updates us this) = progressCallback this"
  by (induction us arbitrary: this) (simp_all add: emit_update_static)

lemma emit_updates_append:
  "emit_updates (us @ vs) this = emit_updates vs (emit_updates us this)"
  by (induction us arbitrary: this) simp_all

lemma delivered_grows:
  "\<exists>more. delivered (emit_updates us this) = delivered this @ more"
proof (induction us arbitrary: this)
  case Nil
  then show ?case by simp
next
  case (Cons u us)
  have "\<exists>m1. delivered (emit_update u this) = delivered this @ m1"
    by (cases "progressCallback this \<and>
         (now_emit (upd_readings u) - lastProgressEmitTime this > progressThrottleMS (config this) \<or>
          upd_processed u = upd_total u)")
       (simp_all add: emit_update_def maybeEmitProgress_cases)
  then obtain m1 where m1: "delivered (emit_update u this) = delivered this @ m1" by blast
  from Cons.IH[of "emit_update u this"] obtain m2 where
    "delivered (emit_updates us (emit_update u this)) = delivered (emit_update u this) @ m2"
    by blast
  with m1 show ?case by simp
qed

lemma calculateETA_formula:
  "calculateETA now processed totalCount this =
     (if processed = 0 \<or> lastProgressEmitTime this = 0 \<or> now = lastProgressEmitTime this
      then Infinity
      else Finite (of_int (totalCount - processed) /
                   (of_int processed / of_int (now - lastProgressEmitTime this))))"
  by (simp add: calculateETA_def Let_def)

lemma calculateETA_at_emission:
  assumes "progressCallback this"
    and "now_emit r - lastProgressEmitTime this > progressThrottleMS (config this) \<or> processed = totalCount"
    and "now_eta r = now_emit r"
  shows "estimatedTimeRemainingMS (snd (last (delivered
           (maybeEmitProgress r totalCount processed cur tot this)))) = Infinity"
  using assms by (simp add: maybeEmitProgress_cases calculateETA_formula)

text \<open>
  C8 on the code. The previous snapshot was emitted at time 1000; an update with 10 of
  20 nodes processed arrives at time 1500, outside the throttle window of 200 ms. The
  rate the claim describes is 10 nodes per 500 ms, which gives an estimate of 500 ms.
  \<open>maybeEmitProgress\<close> stores the new emission time before it calls \<open>calculateETA\<close>, so
  the elapsed time that \<open>calculateETA\<close> computes is 0 and the snapshot carries
  \<open>Infinity\<close>. Called with the baseline of the previous snapshot, \<open>calculateETA\<close> does
  return 500.
\<close>

theorem calculateETA_baseline_reset_example:
  "map (estimatedTimeRemainingMS \<circ> snd)
     (delivered (maybeEmitProgress \<lparr>now_emit = 1500, now_eta = 1500, memory = 10\<rparr> 20 10 1 2
        (default_processor\<lparr>progressCallback := True, lastProgressEmitTime := 1000\<rparr>))) = [Infinity] \<and>
   calculateETA 1500 10 20 (default_processor\<lparr>progressCallback := True, lastProgressEmitTime := 1000\<rparr>)
     = Finite 500 \<and>
   Finite (of_int (20 - 10) / (of_int 10 / of_int (1500 - 1000))) = Finite 500"
  by (simp add: default_processor_def LargeFileProcessor_constructor_def empty_config_def
        orDefault_def maybeEmitProgress_cases calculateETA_formula)



section \<open>Properties of the retrying unit executor\<close>

lemma task_run_failing:
  assumes "\<forall>a. work a \<noteq> None" "\<forall>k. \<not> aborted k" "int a < m"
  shows "ph = Granted \<and> a = 0 \<or> ph = Backoff a \<Longrightarrow>
         task_run m aborted work k ph acc =
           (Rejected (the (work (nat m - 1))), acc @ retry_schedule a (nat m))"
  using assms(3)
proof (induction "nat m - a" arbitrary: a k ph acc rule: less_induct)
  case less
  from assms(1) have "work a \<noteq> None" by blast
  then obtain e where e: "work a = Some e" by (cases "work a") auto
  have head: "processChunkWithRetries_step m (aborted k) (case ph of Running a \<Rightarrow> work a | _ \<Rightarrow> None) ph
        = Some (Running a, [Executed a])"
    using less.prems assms(2) by (auto simp: retry_head_def)
  have s1: "task_run m aborted work k ph acc = task_run m aborted work (k + 1) (Running a) (acc @ [Executed a])"
    by (subst task_run.simps) (simp add: head)
  show ?case
  proof (cases "int (a + 1) \<ge> m")
    case True
    then have am: "a = nat m - 1" using less.prems by linarith
    have "task_run m aborted work (k + 1) (Running a) (acc @ [Executed a])
        = task_run m aborted work (k + 2) (Rejected e) (acc @ [Executed a])"
      using True e by (subst task_run.simps) (simp add: Let_def)
    also have "\<dots> = (Rejected e, acc @ [Executed a])"
      by (subst task_run.simps) simp
    finally show ?thesis using s1 e am by (simp add: retry_schedule_def)
  next
    case False
    then have lt: "int (a + 1) < m" by simp
    have "task_run m aborted work (k + 1) (Running a) (acc @ [Executed a])
        = task_run m aborted work (k + 2) (Backoff (a + 1)) (acc @ [Executed a, Waited (100 * 2 ^ (a + 1))])"
      using False e by (subst task_run.simps) (simp add: Let_def)
    also have "\<dots> = (Rejected (the (work (nat m - 1))), (acc @ [Executed a, Waited (100 * 2 ^ (a + 1))]) @ retry_schedule (a + 1) (nat m))"
      using less.hyps[of "a + 1" "Backoff (a + 1)" "k + 2"] lt less.prems by auto
    finally have s2: "task_run m aborted work (k + 1) (Running a) (acc @ [Executed a]) =
        (Rejected (the (work (nat m - 1))),
         (acc @ [Executed a, Waited (100 * 2 ^ (a + 1))]) @ retry_schedule (a + 1) (nat m))" .
    have "[a ..< nat m - 1] = a # [a + 1 ..< nat m - 1]" using lt by (simp add: upt_conv_Cons)
    then have "[Executed a, Waited (100 * 2 ^ (a + 1))] @ retry_schedule (a + 1) (nat m) = retry_schedule a (nat m)"
      by (simp add: retry_schedule_def)
    then show ?thesis using s1 s2 by simp
  qed
qed


lemma executions_retry_schedule:
  "a < n \<Longrightarrow> executions (retry_schedule a n) = [a ..< n]"
proof (induction "n - a" arbitrary: a)
  case 0
  then show ?case by simp
next
  case (Suc d)
  show ?case
  proof (cases "a = n - 1")
    case True
    then have "[a ..< n] = [a]" using Suc.prems by (simp add: upt_conv_Cons)
    then show ?thesis using True by (simp add: retry_schedule_def executions_def)
  next
    case False
    then have lt: "a < n - 1" using Suc.prems by simp
    then have u: "[a ..< n - 1] = a # [a + 1 ..< n - 1]" by (simp add: upt_conv_Cons)
    have ih: "executions (retry_schedule (a + 1) n) = [a + 1 ..< n]"
      using Suc.hyps(1)[of "a + 1"] Suc.hyps(2) lt by simp
    have "retry_schedule a n = [Executed a, Waited (100 * 2 ^ (a + 1))] @ retry_schedule (a + 1) n"
      using u by (simp add: retry_schedule_def)
    then have "executions (retry_schedule a n) = a # executions (retry_schedule (a + 1) n)"
      by (simp add: executions_def)
    then show ?thesis using ih Suc.prems by (simp add: upt_conv_Cons)
  qed
qed

lemma pauses_retry_schedule:
  "a < n \<Longrightarrow> pauses (retry_schedule a n) = map (\<lambda>k. 100 * 2 ^ k) [a + 1 ..< n]"
proof (induction "n - a" arbitrary: a)
  case 0
  then show ?case by simp
next
  case (Suc d)
  show ?case
  proof (cases "a = n - 1")
    case True
    then show ?thesis using Suc.prems by (simp add: retry_schedule_def pauses_def)
  next
    case False
    then have lt: "a < n - 1" using Suc.prems by simp
    then have u: "[a ..< n - 1] = a # [a + 1 ..< n - 1]" by (simp add: upt_conv_Cons)
    have ih: "pauses (retry_schedule (a + 1) n) = map (\<lambda>k. 100 * 2 ^ k) [a + 1 + 1 ..< n]"
      using Suc.hyps(1)[of "a + 1"] Suc.hyps(2) lt by simp
    have "retry_schedule a n = [Executed a, Waited (100 * 2 ^ (a + 1))] @ retry_schedule (a + 1) n"
      using u by (simp add: retry_schedule_def)
    then have "pauses (retry_schedule a n) = (100 * 2 ^ (a + 1)) # pauses (retry_schedule (a + 1) n)"
      by (simp add: pauses_def)
    moreover have "[a + 1 ..< n] = (a + 1) # [a + 1 + 1 ..< n]" using lt by (simp add: upt_conv_Cons)
    ultimately show ?thesis using ih by simp
  qed
qed

section \<open>Properties of the session controller\<close>

lemma set_status_nth:
  "ref < length (objects p) \<Longrightarrow> status (objects (set_status ref st p) ! ref) = st"
  by (simp add: set_status_def)

lemma set_status_other:
  "other \<noteq> ref \<Longrightarrow> objects (set_status ref st p) ! other = objects p ! other"
  by (simp add: set_status_def)

lemma objects_post [simp]: "objects (post sid msg p) = objects p"
  by (simp add: post_def split: option.splits)

lemma sessions_post [simp]: "sessions (post sid msg p) = sessions p"
  by (simp add: post_def split: option.splits)

lemma objects_emitEvent [simp]: "objects (emitEvent sid ev p) = objects p"
  by (simp add: emitEvent_def Let_def)

lemma sessions_emitEvent [simp]: "sessions (emitEvent sid ev p) = sessions p"
  by (simp add: emitEvent_def Let_def)

lemma sessions_set_status [simp]: "sessions (set_status ref st p) = sessions p"
  by (simp add: set_status_def)

text \<open>
  C4 (as amended). A session's status is one of active, paused, completed and error.
  For a session that the processor knows, \<open>pauseProcessing\<close> sets the status to paused,
  \<open>resumeProcessing\<close> sets it to active, \<open>stopProcessing\<close> sets it to error and removes
  the session from the processor, a \<open>COMPLETE\<close> message of the worker sets it to
  completed and an \<open>ERROR\<close> message sets it to error, each whatever the status was
  before; the end of \<open>processInMainThread\<close> sets the status of its session object to
  completed. No operation changes another session object, and an operation on an
  unknown session identifier changes no session object.
\<close>

theorem control_operations_set_status:
  "(st = Active \<or> st = Paused \<or> st = Completed \<or> st = Error) \<and>
   (sessions p sid = Some ref \<and> ref < length (objects p) \<longrightarrow>
      status (objects (pauseProcessing sid p) ! ref) = Paused \<and>
      status (objects (resumeProcessing sid p) ! ref) = Active \<and>
      status (objects (stopProcessing sid p) ! ref) = Error \<and>
      sessions (stopProcessing sid p) sid = None \<and>
      getSession sid (stopProcessing sid p) = None \<and>
      status (objects (handleWorkerMessage sid (COMPLETE d) p) ! ref) = Completed \<and>
      status (objects (handleWorkerMessage sid (ERROR m) p) ! ref) = Error \<and>
      (\<forall>other. other \<noteq> ref \<longrightarrow>
         objects (pauseProcessing sid p) ! other = objects p ! other \<and>
         objects (resumeProcessing sid p) ! other = objects p ! other \<and>
         objects (stopProcessing sid p) ! other = objects p ! other)) \<and>
   (sessions p sid = None \<longrightarrow>
      objects (pauseProcessing sid p) = objects p \<and>
      objects (resumeProcessing sid p) = objects p \<and>
      objects (stopProcessing sid p) = objects p) \<and>
   (mt_session s < length (objects (rt s)) \<longrightarrow> run_status (mt_finish s) = Completed)"
proof (intro conjI impI allI)
  show "st = Active \<or> st = Paused \<or> st = Completed \<or> st = Error"
    by (cases st) simp_all
next
  assume "mt_session s < length (objects (rt s))"
  then show "run_status (mt_finish s) = Completed"
    by (simp add: run_status_def mt_finish_def set_status_def)
qed (simp_all add: pauseProcessing_def resumeProcessing_def stopProcessing_def getSession_def
       handleError_def Let_def set_status_nth set_status_other)

theorem control_operations_set_status_witness:
  "sessions (one_session Completed) ''s'' = Some 0 \<and>
   0 < length (objects (one_session Completed)) \<and>
   status (objects (one_session Completed) ! 0) = Completed \<and>
   status (objects (pauseProcessing ''s'' (one_session Completed)) ! 0) = Paused \<and>
   status (objects (resumeProcessing ''s'' (one_session Completed)) ! 0) = Active \<and>
   status (objects (stopProcessing ''s'' (one_session Completed)) ! 0) = Error \<and>
   getSession ''s'' (stopProcessing ''s'' (one_session Completed)) = None \<and>
   sessions (one_session Completed) ''t'' = None \<and>
   objects (pauseProcessing ''t'' (one_session Completed)) = objects (one_session Completed) \<and>
   mt_session (one_session_run Paused) < length (objects (rt (one_session_run Paused))) \<and>
   run_status (mt_finish (one_session_run Paused)) = Completed"
  using control_operations_set_status
          [of Active "one_session Completed" "''s''" 0 "''d''" None "one_session_run Paused"]
        control_operations_set_status
          [of Active "one_session Completed" "''t''" 0 "''d''" None "one_session_run Paused"]
  by (simp add: one_session_def one_session_run_def new_RealTimeProcessor_def)

text \<open>
  C4 as stated fails: a completed session is terminal in the claim, yet
  \<open>pauseProcessing\<close> turns its status into paused, a transition the claim does not allow.
\<close>

theorem pause_after_completion_counterexample:
  "map_option run_status (completed_then []) = Some Completed \<and>
   map_option run_status (completed_then [PauseCall ''s'']) = Some Paused \<and>
   \<not> allowed_transition Completed Paused"
  by (simp add: completed_then_def startProcessing_mainThread_def leaf_def createBatches_def
        createBatches_loop.simps js_slice_def new_RealTimeProcessor_def rt_config_with_def
        mt_head_def mt_resume_def mt_after_batch_def mt_finish_def emitEvent_def set_status_def
        run_status_def pauseProcessing_def post_def allowed_transition_def Let_def)

text \<open>
  C5 on the code. Without a \<open>Worker\<close>, a document of two nodes is processed in batches
  of one. \<open>pauseProcessing\<close> is called while the first batch is in flight. The batch
  finishes; at the next iteration the loop sees a status other than active, breaks, and
  marks the session completed with one node of two processed. \<open>resumeProcessing\<close> then
  sets the status to active, but \<open>processInMainThread\<close> has returned: no timer is
  pending and the second node is never processed. Without the pause the same run
  processes both nodes.
\<close>

theorem pause_in_main_thread_completes_early:
  "map_option run_status (paused_in_main_thread [PauseCall ''s'', TimerFires, TimerFires]) = Some Completed \<and>
   map_option run_processed (paused_in_main_thread [PauseCall ''s'', TimerFires, TimerFires]) = Some 1 \<and>
   map_option run_total (paused_in_main_thread [PauseCall ''s'', TimerFires, TimerFires]) = Some 2 \<and>
   map_option mt_phase (paused_in_main_thread [PauseCall ''s'', TimerFires, TimerFires, ResumeCall ''s''])
     = Some Finished \<and>
   map_option run_status (paused_in_main_thread [PauseCall ''s'', TimerFires, TimerFires, ResumeCall ''s''])
     = Some Active \<and>
   paused_in_main_thread [PauseCall ''s'', TimerFires, TimerFires, ResumeCall ''s'', TimerFires] = None \<and>
   map_option run_processed (paused_in_main_thread [TimerFires, TimerFires, TimerFires, TimerFires]) = Some 2 \<and>
   map_option run_status (paused_in_main_thread [TimerFires, TimerFires, TimerFires, TimerFires]) = Some Completed"
  by (simp add: paused_in_main_thread_def startProcessing_mainThread_def leaf_def frame_def
        createBatches_def createBatches_loop.simps js_slice_def new_RealTimeProcessor_def
        rt_config_with_def mt_head_def mt_resume_def mt_after_batch_def mt_finish_def
        emitEvent_def addEventListener_def set_status_def run_status_def run_processed_def
        run_total_def pauseProcessing_def resumeProcessing_def post_def Let_def)

section \<open>Properties of a run\<close>

lemma first_rejected_Some:
  assumes "first_rejected ts = Some e"
  shows "\<exists>j < length ts. ts ! j = Rejected e"
proof -
  let ?f = "\<lambda>ph. case ph of Rejected e \<Rightarrow> Some e | _ \<Rightarrow> None"
  from assms obtain rest where "List.map_filter ?f ts = e # rest"
    by (cases "List.map_filter ?f ts") (simp_all add: first_rejected_def)
  then have "e \<in> set (List.map_filter ?f ts)" by simp
  then obtain ph where ph: "ph \<in> set ts" "?f ph \<noteq> None" "e = the (?f ph)"
    by (auto simp: List.map_filter_def)
  have "ph = Rejected e" by (cases ph) (use ph(2,3) in auto)
  with ph(1) show ?thesis by (auto simp: in_set_conv_nth)
qed

lemma settle_inv_thrown:
  "pipe_inv s \<Longrightarrow> e = AbortError \<or> (\<exists>j < length (tasks s). tasks s ! j = Rejected e) \<Longrightarrow>
   pipe_inv (settle (Thrown e) s)"
  by (auto simp: pipe_inv_def settle_def)

lemma settle_inv_returned:
  "pipe_inv s \<Longrightarrow> all_fulfilled (tasks s) \<Longrightarrow> pipe_inv (settle (Returned (processedData s)) s)"
  by (auto simp: pipe_inv_def settle_def)

lemma submit_inv:
  assumes inv: "pipe_inv s" and loop: "main s = InLoop" and i: "loop_i s < length (chunks s)"
    and acq: "acquire (loop_i s) (semaphore s) = (sem', granted)"
  shows "pipe_inv (s\<lparr> semaphore := sem',
                      tasks := (tasks s)[loop_i s := (if granted then Granted else Waiting)],
                      loop_i := loop_i s + 1 \<rparr>)"
proof -
  from inv have len: "length (tasks s) = length (chunks s)"
    and uns: "\<forall>j < length (tasks s). loop_i s \<le> j \<longrightarrow> tasks s ! j = Unsubmitted"
    and dis: "distinct (queue (semaphore s))"
    and que: "\<forall>w \<in> set (queue (semaphore s)). w < length (tasks s) \<and> tasks s ! w = Waiting"
    and rej: "\<forall>e. allRejected s = Some e \<longrightarrow> (\<exists>j < length (tasks s). tasks s ! j = Rejected e)"
    by (auto simp: pipe_inv_def)
  from uns i len have ti: "tasks s ! loop_i s = Unsubmitted" by simp
  then have notq: "loop_i s \<notin> set (queue (semaphore s))" using que by auto
  have q': "queue sem' = (if granted then queue (semaphore s) else queue (semaphore s) @ [loop_i s])"
    using acq by (auto simp: acquire_def split: if_splits)
  have rej': "\<forall>e. allRejected s = Some e \<longrightarrow>
      (\<exists>j < length (tasks s). (tasks s)[loop_i s := (if granted then Granted else Waiting)] ! j = Rejected e)"
  proof (intro allI impI)
    fix e assume "allRejected s = Some e"
    with rej obtain j where j: "j < length (tasks s)" "tasks s ! j = Rejected e" by blast
    with ti have "j \<noteq> loop_i s" by auto
    with j show "\<exists>j < length (tasks s). (tasks s)[loop_i s := (if granted then Granted else Waiting)] ! j = Rejected e"
      by auto
  qed
  show ?thesis
    unfolding pipe_inv_def
    using len uns dis que notq q' rej' loop i
    by (auto simp: nth_list_update)
qed

lemma main_block_inv:
  "pipe_inv s \<Longrightarrow> main s = InLoop \<Longrightarrow> pipe_inv (main_block s)"
proof (induction "length (chunks s) - loop_i s" arbitrary: s rule: less_induct)
  case less
  show ?case
  proof (cases "loop_i s < length (chunks s)")
    case False
    then have "main_block s = s\<lparr> main := AwaitAll, allRejected := first_rejected (tasks s) \<rparr>"
      by (subst main_block.simps) simp
    then show ?thesis using less.prems first_rejected_Some[of "tasks s"]
      by (auto simp: pipe_inv_def)
  next
    case True
    show ?thesis
    proof (cases "abortController (processor s) = Some True")
      case ab: True
      then have "main_block s = settle (Thrown AbortError) s"
        using True by (subst main_block.simps) simp
      then show ?thesis using less.prems by (simp add: settle_inv_thrown)
    next
      case nab: False
      obtain sem' granted where acq: "acquire (loop_i s) (semaphore s) = (sem', granted)"
        by (cases "acquire (loop_i s) (semaphore s)") auto
      let ?s1 = "s\<lparr> semaphore := sem',
                      tasks := (tasks s)[loop_i s := (if granted then Granted else Waiting)],
                      loop_i := loop_i s + 1 \<rparr>"
      have inv1: "pipe_inv ?s1" using submit_inv[OF less.prems(1,2) True acq] .
      have mb: "main_block s = (if loop_i s mod 10 = 0 then ?s1 else main_block ?s1)"
        using True nab acq by (subst main_block.simps) (simp add: Let_def)
      show ?thesis
      proof (cases "loop_i s mod 10 = 0")
        case True
        then show ?thesis using mb inv1 by simp
      next
        case False
        have "length (chunks ?s1) - loop_i ?s1 < length (chunks s) - loop_i s"
          using True by simp
        from less.hyps[OF this inv1] less.prems(2) have "pipe_inv (main_block ?s1)" by simp
        then show ?thesis using mb False by simp
      qed
    qed
  qed
qed

lemma main_step_inv:
  assumes "pipe_inv s" "main_step s = Some s'"
  shows "pipe_inv s'"
proof (cases "main s")
  case InLoop
  with assms show ?thesis by (auto simp: main_step_def main_block_inv)
next
  case AwaitAll
  show ?thesis
  proof (cases "allRejected s")
    case None
    with assms AwaitAll show ?thesis
      by (auto simp: main_step_def settle_inv_returned split: if_splits)
  next
    case (Some e)
    with assms(1) have "\<exists>j < length (tasks s). tasks s ! j = Rejected e"
      by (auto simp: pipe_inv_def)
    from settle_inv_thrown[OF assms(1), of e] this have "pipe_inv (settle (Thrown e) s)" by blast
    with assms AwaitAll Some show ?thesis
      by (auto simp: main_step_def)
  qed
next
  case (Settled out)
  with assms show ?thesis by (simp add: main_step_def)
qed

lemma step_result_phase:
  assumes "processChunkWithRetries_step m ab f ph = Some (ph', evs)"
  shows "active ph \<and> (is_settled ph' \<or> active ph') \<and> ph' \<noteq> Granted"
  using assms
  by (cases ph) (auto simp: retry_head_def Let_def split: if_splits option.splits)

lemma active_before_loop:
  "pipe_inv s \<Longrightarrow> j < length (tasks s) \<Longrightarrow> tasks s ! j \<noteq> Unsubmitted \<Longrightarrow> j < loop_i s"
  by (auto simp: pipe_inv_def)

lemma finish_task_fields:
  "main (finish_task j ph s) = main s"
  "loop_i (finish_task j ph s) = loop_i s"
  "chunks (finish_task j ph s) = chunks s"
  "processedData (finish_task j ph s) = processedData s"
  "processor (finish_task j ph s) = processor s"
  "trace (finish_task j ph s) = trace s"
  "allRejected (finish_task j ph s) =
     (case ph of
        Rejected e \<Rightarrow> (if main s = AwaitAll \<and> allRejected s = None then Some e else allRejected s)
      | _ \<Rightarrow> allRejected s)"
  by (simp_all add: finish_task_def Let_def split: prod.splits)

lemma finish_task_queue:
  "queue (semaphore s) = [] \<Longrightarrow> tasks (finish_task j ph s) = (tasks s)[j := ph]"
  "queue (semaphore s) = [] \<Longrightarrow> queue (semaphore (finish_task j ph s)) = []"
  "queue (semaphore s) = w # rest \<Longrightarrow> tasks (finish_task j ph s) = (tasks s)[j := ph, w := Granted]"
  "queue (semaphore s) = w # rest \<Longrightarrow> queue (semaphore (finish_task j ph s)) = rest"
  by (simp_all add: finish_task_def release_def Let_def)

lemma finish_task_inv:
  assumes inv: "pipe_inv s" and j: "j < length (tasks s)" and act: "active (tasks s ! j)"
    and ph: "is_settled ph"
  shows "pipe_inv (finish_task j ph s)"
proof -
  from inv have len: "length (tasks s) = length (chunks s)"
    and uns: "\<forall>k < length (tasks s). loop_i s \<le> k \<longrightarrow> tasks s ! k = Unsubmitted"
    and dis: "distinct (queue (semaphore s))"
    and que: "\<forall>w \<in> set (queue (semaphore s)). w < length (tasks s) \<and> tasks s ! w = Waiting"
    and rej: "\<forall>e. allRejected s = Some e \<longrightarrow> (\<exists>k < length (tasks s). tasks s ! k = Rejected e)"
    and mc: "main_consistent s (main s)"
    unfolding pipe_inv_def by blast+
  from act have jn: "tasks s ! j \<noteq> Unsubmitted" "tasks s ! j \<noteq> Waiting" "tasks s ! j \<noteq> Fulfilled"
      "\<And>e. tasks s ! j \<noteq> Rejected e"
    by auto
  from jn(1) uns j have jl: "j < loop_i s" by (meson not_le_imp_less)
  from jn(2) que have jq: "j \<notin> set (queue (semaphore s))" by blast
  have nf: "\<not> all_fulfilled (tasks s)"
    using j jn(3) by (auto simp: all_fulfilled_def list_all_length)
  define ts' where "ts' = tasks (finish_task j ph s)"
  define q' where "q' = queue (semaphore (finish_task j ph s))"
  have l': "length ts' = length (tasks s)"
    unfolding ts'_def by (cases "queue (semaphore s)") (simp_all add: finish_task_queue)
  have atj: "ts' ! j = ph"
  proof (cases "queue (semaphore s)")
    case Nil
    then show ?thesis using j by (simp add: ts'_def finish_task_queue)
  next
    case (Cons w rest)
    then have "w \<noteq> j" using jq by auto
    then show ?thesis using j Cons by (simp add: ts'_def finish_task_queue)
  qed
  have keep: "ts' ! k = tasks s ! k"
    if "k < length (tasks s)" "k \<noteq> j" "tasks s ! k \<noteq> Waiting" for k
  proof (cases "queue (semaphore s)")
    case Nil
    then show ?thesis using that by (simp add: ts'_def finish_task_queue)
  next
    case (Cons w rest)
    then have "tasks s ! w = Waiting" using que by simp
    then have "w \<noteq> k" using that(3) by auto
    then show ?thesis using that Cons by (simp add: ts'_def finish_task_queue)
  qed
  have c2: "\<forall>k < length ts'. loop_i s \<le> k \<longrightarrow> ts' ! k = Unsubmitted"
  proof (intro allI impI)
    fix k assume k: "k < length ts'" "loop_i s \<le> k"
    then have "tasks s ! k = Unsubmitted" using uns l' by simp
    moreover have "k \<noteq> j" using jl k by simp
    ultimately show "ts' ! k = Unsubmitted" using keep[of k] k l' by simp
  qed
  have c3: "distinct q'"
    unfolding q'_def using dis by (cases "queue (semaphore s)") (simp_all add: finish_task_queue)
  have c4: "\<forall>w \<in> set q'. w < length ts' \<and> ts' ! w = Waiting"
  proof
    fix w assume w: "w \<in> set q'"
    then obtain w0 rest where q: "queue (semaphore s) = w0 # rest"
      unfolding q'_def by (cases "queue (semaphore s)") (simp_all add: finish_task_queue)
    then have q'r: "q' = rest" and t': "ts' = (tasks s)[j := ph, w0 := Granted]"
      by (simp_all add: q'_def ts'_def finish_task_queue)
    from w q q'r dis have ww: "w \<noteq> w0" "w \<in> set (queue (semaphore s))" by auto
    with que jq have "w < length (tasks s)" "tasks s ! w = Waiting" "w \<noteq> j" by auto
    with t' ww show "w < length ts' \<and> ts' ! w = Waiting" by simp
  qed
  have old: "\<exists>k < length ts'. ts' ! k = Rejected e"
    if "\<exists>k < length (tasks s). tasks s ! k = Rejected e" for e
  proof -
    from that obtain k where k: "k < length (tasks s)" "tasks s ! k = Rejected e" by blast
    then have "k \<noteq> j" using jn(4) by auto
    with keep[of k] k have "ts' ! k = Rejected e" by simp
    with k l' show ?thesis by auto
  qed
  have c5: "\<forall>e. allRejected (finish_task j ph s) = Some e \<longrightarrow> (\<exists>k < length ts'. ts' ! k = Rejected e)"
  proof (intro allI impI)
    fix e assume a: "allRejected (finish_task j ph s) = Some e"
    then consider (new) "ph = Rejected e" | (old) "allRejected s = Some e"
      by (cases ph) (auto simp: finish_task_fields split: if_splits)
    then show "\<exists>k < length ts'. ts' ! k = Rejected e"
    proof cases
      case new
      then show ?thesis using atj j l' by auto
    next
      case old
      with rej have "\<exists>k < length (tasks s). tasks s ! k = Rejected e" by blast
      then show ?thesis by (rule \<open>\<And>e. \<exists>k < length (tasks s). tasks s ! k = Rejected e \<Longrightarrow> \<exists>k < length ts'. ts' ! k = Rejected e\<close>)
    qed
  qed
  have c6: "main_consistent (finish_task j ph s) (main s)"
  proof (cases "main s")
    case (Settled out)
    show ?thesis
    proof (cases out)
      case (Returned d)
      with Settled mc nf show ?thesis by simp
    next
      case (Thrown e)
      with Settled mc consider "e = AbortError" | "\<exists>k < length (tasks s). tasks s ! k = Rejected e"
        by auto
      then show ?thesis
      proof cases
        case 1
        then show ?thesis using Settled Thrown by simp
      next
        case 2
        then have "\<exists>k < length ts'. ts' ! k = Rejected e"
          by (rule \<open>\<And>e. \<exists>k < length (tasks s). tasks s ! k = Rejected e \<Longrightarrow> \<exists>k < length ts'. ts' ! k = Rejected e\<close>)
        then show ?thesis using Settled Thrown by (simp add: ts'_def)
      qed
    qed
  qed simp_all
  show ?thesis
    unfolding pipe_inv_def
  proof (intro conjI)
    show "length (tasks (finish_task j ph s)) = length (chunks (finish_task j ph s))"
      using l' len by (simp add: ts'_def finish_task_fields)
    show "\<forall>k<length (tasks (finish_task j ph s)).
       loop_i (finish_task j ph s) \<le> k \<longrightarrow> tasks (finish_task j ph s) ! k = Unsubmitted"
      using c2 by (simp add: ts'_def finish_task_fields)
    show "distinct (queue (semaphore (finish_task j ph s)))"
      using c3 by (simp add: q'_def)
    show "\<forall>w\<in>set (queue (semaphore (finish_task j ph s))).
       w < length (tasks (finish_task j ph s)) \<and> tasks (finish_task j ph s) ! w = Waiting"
      using c4 by (simp add: q'_def ts'_def)
    show "\<forall>e. allRejected (finish_task j ph s) = Some e \<longrightarrow>
        (\<exists>k<length (tasks (finish_task j ph s)). tasks (finish_task j ph s) ! k = Rejected e)"
      using c5 by (simp add: ts'_def)
    show "main_consistent (finish_task j ph s) (main (finish_task j ph s))"
      using c6 by (simp add: finish_task_fields)
  qed
qed

lemma set_phase_inv:
  assumes inv: "pipe_inv s" and j: "j < length (tasks s)" and act: "active (tasks s ! j)"
    and ph: "active ph"
  shows "pipe_inv (s\<lparr> tasks := (tasks s)[j := ph] \<rparr>)"
proof -
  from inv have len: "length (tasks s) = length (chunks s)"
    and uns: "\<forall>k < length (tasks s). loop_i s \<le> k \<longrightarrow> tasks s ! k = Unsubmitted"
    and dis: "distinct (queue (semaphore s))"
    and que: "\<forall>w \<in> set (queue (semaphore s)). w < length (tasks s) \<and> tasks s ! w = Waiting"
    and rej: "\<forall>e. allRejected s = Some e \<longrightarrow> (\<exists>k < length (tasks s). tasks s ! k = Rejected e)"
    and mc: "main_consistent s (main s)"
    unfolding pipe_inv_def by blast+
  from act have jn: "tasks s ! j \<noteq> Unsubmitted" "tasks s ! j \<noteq> Waiting" "tasks s ! j \<noteq> Fulfilled"
      "\<And>e. tasks s ! j \<noteq> Rejected e"
    by auto
  from jn(1) uns j have jl: "j < loop_i s" by (meson not_le_imp_less)
  from jn(2) que have jq: "j \<notin> set (queue (semaphore s))" by blast
  have nf: "\<not> all_fulfilled (tasks s)"
    using j jn(3) by (auto simp: all_fulfilled_def list_all_length)
  let ?ts = "(tasks s)[j := ph]"
  have old: "\<exists>k < length ?ts. ?ts ! k = Rejected e"
    if "\<exists>k < length (tasks s). tasks s ! k = Rejected e" for e
  proof -
    from that obtain k where k: "k < length (tasks s)" "tasks s ! k = Rejected e" by blast
    then have "k \<noteq> j" using jn(4) by auto
    with k have "?ts ! k = Rejected e" by simp
    with k show ?thesis by auto
  qed
  have c6: "main_consistent (s\<lparr> tasks := ?ts \<rparr>) (main s)"
  proof (cases "main s")
    case (Settled out)
    show ?thesis
    proof (cases out)
      case (Returned d)
      with Settled mc nf show ?thesis by simp
    next
      case (Thrown e)
      with Settled mc consider "e = AbortError" | "\<exists>k < length (tasks s). tasks s ! k = Rejected e"
        by auto
      then show ?thesis
      proof cases
        case 1
        then show ?thesis using Settled Thrown by simp
      next
        case 2
        from old[OF this] show ?thesis using Settled Thrown by simp
      qed
    qed
  qed simp_all
  show ?thesis
    unfolding pipe_inv_def
  proof (intro conjI)
    show "length (tasks (s\<lparr>tasks := ?ts\<rparr>)) = length (chunks (s\<lparr>tasks := ?ts\<rparr>))"
      using len by simp
    show "\<forall>k<length (tasks (s\<lparr>tasks := ?ts\<rparr>)).
       loop_i (s\<lparr>tasks := ?ts\<rparr>) \<le> k \<longrightarrow> tasks (s\<lparr>tasks := ?ts\<rparr>) ! k = Unsubmitted"
      using uns jl by simp
    show "distinct (queue (semaphore (s\<lparr>tasks := ?ts\<rparr>)))"
      using dis by simp
    show "\<forall>w\<in>set (queue (semaphore (s\<lparr>tasks := ?ts\<rparr>))).
       w < length (tasks (s\<lparr>tasks := ?ts\<rparr>)) \<and> tasks (s\<lparr>tasks := ?ts\<rparr>) ! w = Waiting"
    proof
      fix w assume "w \<in> set (queue (semaphore (s\<lparr>tasks := ?ts\<rparr>)))"
      then have w: "w \<in> set (queue (semaphore s))" by simp
      with jq have "w \<noteq> j" by auto
      with w que show "w < length (tasks (s\<lparr>tasks := ?ts\<rparr>)) \<and> tasks (s\<lparr>tasks := ?ts\<rparr>) ! w = Waiting"
        by simp
    qed
    show "\<forall>e. allRejected (s\<lparr>tasks := ?ts\<rparr>) = Some e \<longrightarrow>
        (\<exists>k<length (tasks (s\<lparr>tasks := ?ts\<rparr>)). tasks (s\<lparr>tasks := ?ts\<rparr>) ! k = Rejected e)"
    proof (intro allI impI)
      fix e assume "allRejected (s\<lparr>tasks := ?ts\<rparr>) = Some e"
      then have "\<exists>k < length (tasks s). tasks s ! k = Rejected e" using rej by simp
      from old[OF this] show "\<exists>k<length (tasks (s\<lparr>tasks := ?ts\<rparr>)). tasks (s\<lparr>tasks := ?ts\<rparr>) ! k = Rejected e"
        by simp
    qed
    show "main_consistent (s\<lparr>tasks := ?ts\<rparr>) (main (s\<lparr>tasks := ?ts\<rparr>))"
      using c6 by simp
  qed
qed

lemma commit_fields:
  "tasks (processChunk_commit r j pc s) = tasks s"
  "chunks (processChunk_commit r j pc s) = chunks s"
  "loop_i (processChunk_commit r j pc s) = loop_i s"
  "semaphore (processChunk_commit r j pc s) = semaphore s"
  "allRejected (processChunk_commit r j pc s) = allRejected s"
  "main (processChunk_commit r j pc s) = main s"
  "trace (processChunk_commit r j pc s) = trace s"
  by (simp_all add: processChunk_commit_def Let_def)

lemma commit_inv:
  assumes inv: "pipe_inv s" and j: "j < length (tasks s)" and act: "active (tasks s ! j)"
  shows "pipe_inv (processChunk_commit r j pc s)"
proof -
  from act have "tasks s ! j \<noteq> Fulfilled" by auto
  then have nf: "\<not> all_fulfilled (tasks s)"
    using j by (auto simp: all_fulfilled_def list_all_length)
  from inv have mc: "main_consistent s (main s)" unfolding pipe_inv_def by blast
  have c6: "main_consistent (processChunk_commit r j pc s) (main s)"
  proof (cases "main s")
    case (Settled out)
    show ?thesis
    proof (cases out)
      case (Returned d)
      with Settled mc nf show ?thesis by simp
    next
      case (Thrown e)
      with Settled mc show ?thesis by (simp add: commit_fields)
    qed
  qed simp_all
  from inv c6 show ?thesis
    unfolding pipe_inv_def commit_fields by blast
qed

lemma trace_inv:
  "pipe_inv (s\<lparr> trace := t \<rparr>) = pipe_inv s"
proof -
  have "main_consistent (s\<lparr> trace := t \<rparr>) (main s) = main_consistent s (main s)"
    by (cases "(s, main s)" rule: main_consistent.cases) auto
  then show ?thesis by (simp add: pipe_inv_def)
qed

lemma task_step_shape:
  assumes st: "task_step work j r s = Some s'"
  shows "\<exists>ph' evs.
    j < length (tasks s) \<and>
    processChunkWithRetries_step (maxRetriesPerChunk (config (processor s)))
       (abortController (processor s) = Some True)
       (case tasks s ! j of Running a \<Rightarrow> attempt_failure work j a (chunks s ! j) | _ \<Rightarrow> None)
       (tasks s ! j) = Some (ph', evs) \<and>
    (is_settled ph' \<longrightarrow> s' = finish_task j ph' (s\<lparr> trace := trace s @ map (Pair j) evs \<rparr>)) \<and>
    (ph' = Sleeping \<longrightarrow>
       s' = (case processNodes (chunks s ! j) of
               Inr pc \<Rightarrow> processChunk_commit r j pc (s\<lparr> trace := trace s @ map (Pair j) evs \<rparr>)
             | Inl e \<Rightarrow> s\<lparr> trace := trace s @ map (Pair j) evs \<rparr>)\<lparr> tasks := (tasks s)[j := Sleeping] \<rparr>) \<and>
    (\<not> is_settled ph' \<and> ph' \<noteq> Sleeping \<longrightarrow>
       s' = s\<lparr> trace := trace s @ map (Pair j) evs, tasks := (tasks s)[j := ph'] \<rparr>)"
proof -
  from st have j: "j < length (tasks s)" by (auto simp: task_step_def split: if_splits)
  from st j obtain ph' evs where
    ps: "processChunkWithRetries_step (maxRetriesPerChunk (config (processor s)))
       (abortController (processor s) = Some True)
       (case tasks s ! j of Running a \<Rightarrow> attempt_failure work j a (chunks s ! j) | _ \<Rightarrow> None)
       (tasks s ! j) = Some (ph', evs)"
    by (auto simp: task_step_def Let_def split: option.splits)
  have a: "s' = finish_task j ph' (s\<lparr> trace := trace s @ map (Pair j) evs \<rparr>)" if "is_settled ph'"
  proof -
    from that have "ph' \<noteq> Sleeping" by auto
    with st j ps that show ?thesis by (simp add: task_step_def Let_def)
  qed
  have b: "s' = (case processNodes (chunks s ! j) of
               Inr pc \<Rightarrow> processChunk_commit r j pc (s\<lparr> trace := trace s @ map (Pair j) evs \<rparr>)
             | Inl e \<Rightarrow> s\<lparr> trace := trace s @ map (Pair j) evs \<rparr>)\<lparr> tasks := (tasks s)[j := Sleeping] \<rparr>"
    if "ph' = Sleeping"
    using st j ps that
    by (cases "processNodes (chunks s ! j)") (simp_all add: task_step_def Let_def commit_fields)
  have c: "s' = s\<lparr> trace := trace s @ map (Pair j) evs, tasks := (tasks s)[j := ph'] \<rparr>"
    if "\<not> is_settled ph'" "ph' \<noteq> Sleeping"
    using st j ps that by (simp add: task_step_def Let_def)
  from j ps a b c show ?thesis by blast
qed

lemma task_step_inv:
  assumes inv: "pipe_inv s" and st: "task_step work j r s = Some s'"
  shows "pipe_inv s'"
proof -
  from st obtain ph' evs where j: "j < length (tasks s)"
    and ps: "processChunkWithRetries_step (maxRetriesPerChunk (config (processor s)))
       (abortController (processor s) = Some True)
       (case tasks s ! j of Running a \<Rightarrow> attempt_failure work j a (chunks s ! j) | _ \<Rightarrow> None)
       (tasks s ! j) = Some (ph', evs)"
    and a: "is_settled ph' \<Longrightarrow> s' = finish_task j ph' (s\<lparr> trace := trace s @ map (Pair j) evs \<rparr>)"
    and b: "ph' = Sleeping \<Longrightarrow>
       s' = (case processNodes (chunks s ! j) of
               Inr pc \<Rightarrow> processChunk_commit r j pc (s\<lparr> trace := trace s @ map (Pair j) evs \<rparr>)
             | Inl e \<Rightarrow> s\<lparr> trace := trace s @ map (Pair j) evs \<rparr>)\<lparr> tasks := (tasks s)[j := Sleeping] \<rparr>"
    and c: "\<not> is_settled ph' \<Longrightarrow> ph' \<noteq> Sleeping \<Longrightarrow>
       s' = s\<lparr> trace := trace s @ map (Pair j) evs, tasks := (tasks s)[j := ph'] \<rparr>"
    using task_step_shape[OF st] by blast
  let ?s1 = "s\<lparr> trace := trace s @ map (Pair j) evs \<rparr>"
  from step_result_phase[OF ps] have act: "active (tasks s ! j)" and ph': "is_settled ph' \<or> active ph'"
    by auto
  have inv1: "pipe_inv ?s1" using inv by (simp add: trace_inv)
  have j1: "j < length (tasks ?s1)" "active (tasks ?s1 ! j)" using j act by simp_all
  consider (settled) "is_settled ph'" | (sleeping) "ph' = Sleeping"
    | (other) "\<not> is_settled ph'" "ph' \<noteq> Sleeping"
    by blast
  then show ?thesis
  proof cases
    case settled
    from finish_task_inv[OF inv1 j1 settled] a[OF settled] show ?thesis by simp
  next
    case sleeping
    let ?s2 = "case processNodes (chunks s ! j) of
               Inr pc \<Rightarrow> processChunk_commit r j pc ?s1 | Inl e \<Rightarrow> ?s1"
    have inv2: "pipe_inv ?s2" and t2: "tasks ?s2 = tasks s"
      using inv1 commit_inv[OF inv1 j1] by (auto simp: commit_fields split: sum.splits)
    have "pipe_inv (?s2\<lparr> tasks := (tasks ?s2)[j := Sleeping] \<rparr>)"
      by (rule set_phase_inv[OF inv2]) (simp_all add: t2 j act)
    then show ?thesis using b[OF sleeping] t2 by simp
  next
    case other
    with ph' have ap: "active ph'" by simp
    have "pipe_inv (?s1\<lparr> tasks := (tasks ?s1)[j := ph'] \<rparr>)"
      by (rule set_phase_inv[OF inv1 j1 ap])
    then show ?thesis using c[OF other] by simp
  qed
qed

lemma abort_inv: "pipe_inv s \<Longrightarrow> pipe_inv (abort s)"
proof -
  have "main_consistent (abort s) (main s) = main_consistent s (main s)"
    by (cases "(s, main s)" rule: main_consistent.cases) (auto simp: abort_def)
  then show "pipe_inv s \<Longrightarrow> pipe_inv (abort s)"
    unfolding pipe_inv_def by (auto simp: abort_def)
qed

lemma step_inv:
  assumes "pipe_inv s" "step work e s = Some s'"
  shows "pipe_inv s'"
proof (cases e)
  case Main
  with assms show ?thesis using main_step_inv[of s s'] by simp
next
  case (Task j r)
  with assms show ?thesis using task_step_inv[of s work j r s'] by simp
next
  case AbortCall
  with assms show ?thesis using abort_inv[of s] by auto
qed

lemma run_inv: "pipe_inv s \<Longrightarrow> run work es s = Some s' \<Longrightarrow> pipe_inv s'"
proof (induction es arbitrary: s)
  case Nil
  then show ?case by simp
next
  case (Cons e es)
  from Cons.prems(2) obtain s1 where s1: "step work e s = Some s1" "run work es s1 = Some s'"
    by (auto split: option.splits)
  from step_inv[OF Cons.prems(1) s1(1)] Cons.IH s1(2) show ?case by blast
qed

lemma start_inv:
  assumes "processLargeFigmaFile this document onProgress now = Some s"
  shows "pipe_inv s"
proof -
  from assms obtain cs s0 where s: "s = main_block s0" and s0: "main s0 = InLoop" "loop_i s0 = 0"
      "tasks s0 = replicate (length cs) Unsubmitted" "chunks s0 = cs"
      "queue (semaphore s0) = []" "allRejected s0 = None"
    by (auto simp: processLargeFigmaFile_def Let_def Semaphore_constructor_def split: option.splits)
  then have "pipe_inv s0" by (simp add: pipe_inv_def)
  with s s0(1) show ?thesis by (simp add: main_block_inv)
qed

lemma aborted_step_starts_nothing:
  "processChunkWithRetries_step m True f ph = Some (ph', evs) \<Longrightarrow> executions evs = []"
  by (cases ph) (auto simp: retry_head_def executions_def Let_def split: if_splits option.splits)

lemma started_append:
  "started (s\<lparr> trace := trace s @ map (Pair j) evs \<rparr>) = started s @ map (Pair j) (executions evs)"
proof -
  have "concat (map (\<lambda>(j, e). case e of Executed a \<Rightarrow> [(j, a)] | Waited ms \<Rightarrow> []) (map (Pair j) evs))
      = map (Pair j) (executions evs)"
    by (induction evs) (auto simp: executions_def split: retry_event.splits)
  then show ?thesis by (simp add: started_def)
qed

lemma started_fields [simp]:
  "started (s\<lparr> tasks := ts \<rparr>) = started s"
  "started (finish_task j ph s) = started s"
  "started (processChunk_commit r j pc s) = started s"
  "started (settle out s) = started s"
  "started (abort s) = started s"
  by (simp_all add: started_def finish_task_fields commit_fields settle_def abort_def)

lemma abortController_maybeEmitProgress [simp]:
  "abortController (maybeEmitProgress r t p c n this) = abortController this"
  by (simp add: maybeEmitProgress_cases)

lemma abortController_commit [simp]:
  "abortController (processor (processChunk_commit r j pc s)) = abortController (processor s)"
  by (simp add: processChunk_commit_def Let_def)

lemma task_step_aborted:
  assumes ab: "abortController (processor s) = Some True" and st: "task_step work j r s = Some s'"
  shows "started s' = started s \<and> loop_i s' = loop_i s \<and>
         abortController (processor s') = Some True \<and> main s' = main s"
proof -
  from task_step_shape[OF st] obtain ph' evs where
    ps: "processChunkWithRetries_step (maxRetriesPerChunk (config (processor s)))
       (abortController (processor s) = Some True)
       (case tasks s ! j of Running a \<Rightarrow> attempt_failure work j a (chunks s ! j) | _ \<Rightarrow> None)
       (tasks s ! j) = Some (ph', evs)"
    and a: "is_settled ph' \<longrightarrow> s' = finish_task j ph' (s\<lparr> trace := trace s @ map (Pair j) evs \<rparr>)"
    and b: "ph' = Sleeping \<longrightarrow>
       s' = (case processNodes (chunks s ! j) of
               Inr pc \<Rightarrow> processChunk_commit r j pc (s\<lparr> trace := trace s @ map (Pair j) evs \<rparr>)
             | Inl e \<Rightarrow> s\<lparr> trace := trace s @ map (Pair j) evs \<rparr>)\<lparr> tasks := (tasks s)[j := Sleeping] \<rparr>"
    and c: "\<not> is_settled ph' \<and> ph' \<noteq> Sleeping \<longrightarrow>
       s' = s\<lparr> trace := trace s @ map (Pair j) evs, tasks := (tasks s)[j := ph'] \<rparr>"
    by blast
  from ps ab have ne: "executions evs = []"
    using aborted_step_starts_nothing by simp
  let ?s1 = "s\<lparr> trace := trace s @ map (Pair j) evs \<rparr>"
  have s1: "started ?s1 = started s" using started_append[of s j evs] ne by simp
  consider (settled) "is_settled ph'" | (sleeping) "ph' = Sleeping"
    | (other) "\<not> is_settled ph'" "ph' \<noteq> Sleeping"
    by blast
  then show ?thesis
  proof cases
    case settled
    with a have "s' = finish_task j ph' ?s1" by simp
    then show ?thesis using s1 ab by (simp add: finish_task_fields)
  next
    case sleeping
    show ?thesis
    proof (cases "processNodes (chunks s ! j)")
      case (Inl e)
      with b sleeping have "s' = ?s1\<lparr> tasks := (tasks s)[j := Sleeping] \<rparr>" by simp
      then show ?thesis using s1 ab by simp
    next
      case (Inr pc)
      with b sleeping have "s' = (processChunk_commit r j pc ?s1)\<lparr> tasks := (tasks s)[j := Sleeping] \<rparr>"
        by simp
      then show ?thesis using s1 ab by (simp add: commit_fields)
    qed
  next
    case other
    with c have "s' = ?s1\<lparr> tasks := (tasks s)[j := ph'] \<rparr>" by simp
    then show ?thesis using s1 ab by simp
  qed
qed

lemma main_block_aborted:
  "abortController (processor s) = Some True \<Longrightarrow>
   main_block s =
     (if loop_i s < length (chunks s) then settle (Thrown AbortError) s
      else s\<lparr> main := AwaitAll, allRejected := first_rejected (tasks s) \<rparr>)"
  by (subst main_block.simps) simp

lemma main_step_aborted:
  assumes ab: "abortController (processor s) = Some True" and st: "main_step s = Some s'"
  shows "started s' = started s \<and> loop_i s' = loop_i s \<and>
         (settled s' \<or> abortController (processor s') = Some True)"
proof (cases "main s")
  case InLoop
  with st have "s' = main_block s" by (simp add: main_step_def)
  then show ?thesis using ab main_block_aborted[OF ab]
    by (auto simp: settle_def settled_def started_def)
next
  case AwaitAll
  with st show ?thesis
    by (auto simp: main_step_def settle_def settled_def started_def split: option.splits if_splits)
next
  case (Settled out)
  with st show ?thesis by (simp add: main_step_def)
qed

lemma step_aborted:
  assumes "abortController (processor s) = Some True" "step work e s = Some s'"
  shows "started s' = started s \<and> loop_i s' = loop_i s \<and>
         (settled s' \<or> abortController (processor s') = Some True)"
proof (cases e)
  case Main
  with assms show ?thesis using main_step_aborted[of s s'] by simp
next
  case (Task j r)
  with assms show ?thesis using task_step_aborted[of s work j r s'] by simp
next
  case AbortCall
  with assms show ?thesis by (auto simp: abort_def started_def)
qed

lemma step_settled:
  assumes "settled s" "step work e s = Some s'"
  shows "settled s'"
proof (cases e)
  case Main
  with assms show ?thesis by (cases "main s") (simp_all add: main_step_def settled_def)
next
  case (Task j r)
  with assms(2) have st: "task_step work j r s = Some s'" by simp
  have "main s' = main s"
  proof -
    from task_step_shape[OF st] obtain ph' evs where
      a: "is_settled ph' \<longrightarrow> s' = finish_task j ph' (s\<lparr> trace := trace s @ map (Pair j) evs \<rparr>)"
      and b: "ph' = Sleeping \<longrightarrow>
         s' = (case processNodes (chunks s ! j) of
                 Inr pc \<Rightarrow> processChunk_commit r j pc (s\<lparr> trace := trace s @ map (Pair j) evs \<rparr>)
               | Inl e \<Rightarrow> s\<lparr> trace := trace s @ map (Pair j) evs \<rparr>)\<lparr> tasks := (tasks s)[j := Sleeping] \<rparr>"
      and c: "\<not> is_settled ph' \<and> ph' \<noteq> Sleeping \<longrightarrow>
         s' = s\<lparr> trace := trace s @ map (Pair j) evs, tasks := (tasks s)[j := ph'] \<rparr>"
      by blast
    consider (settled) "is_settled ph'" | (sleeping) "ph' = Sleeping"
      | (other) "\<not> is_settled ph'" "ph' \<noteq> Sleeping"
      by blast
    then show ?thesis
    proof cases
      case settled
      with a show ?thesis by (simp add: finish_task_fields)
    next
      case sleeping
      with b show ?thesis
        by (cases "processNodes (chunks s ! j)") (simp_all add: commit_fields)
    next
      case other
      with c show ?thesis by simp
    qed
  qed
  with assms(1) show ?thesis by (simp add: settled_def)
next
  case AbortCall
  with assms show ?thesis by (auto simp: abort_def settled_def)
qed

lemma run_settled:
  "settled s \<Longrightarrow> run work es s = Some s' \<Longrightarrow> settled s'"
proof (induction es arbitrary: s)
  case Nil
  then show ?case by simp
next
  case (Cons e es)
  from Cons.prems(2) obtain s1 where s1: "step work e s = Some s1" "run work es s1 = Some s'"
    by (auto split: option.splits)
  from step_settled[OF Cons.prems(1) s1(1)] Cons.IH s1(2) show ?case by blast
qed

lemma run_aborted:
  "abortController (processor s) = Some True \<Longrightarrow> run work es s = Some s' \<Longrightarrow> \<not> settled s' \<Longrightarrow>
   started s' = started s \<and> loop_i s' = loop_i s \<and> abortController (processor s') = Some True"
proof (induction es arbitrary: s)
  case Nil
  then show ?case by simp
next
  case (Cons e es)
  from Cons.prems(2) obtain s1 where s1: "step work e s = Some s1" "run work es s1 = Some s'"
    by (auto split: option.splits)
  from step_aborted[OF Cons.prems(1) s1(1)]
  have k: "started s1 = started s" "loop_i s1 = loop_i s"
    "settled s1 \<or> abortController (processor s1) = Some True"
    by auto
  have "\<not> settled s1" using run_settled[OF _ s1(2)] Cons.prems(3) by blast
  with k(3) have "abortController (processor s1) = Some True" by simp
  from Cons.IH[OF this s1(2) Cons.prems(3)] k show ?case by simp
qed

text \<open>
  While the controller of a run is live, the checks of the abort signal work: after
  \<open>abort()\<close> and until the run settles, under every schedule, no chunk begins an
  execution and the submission loop submits no chunk; the loop's next iteration throws
  an \<open>AbortError\<close>; where \<open>maxRetriesPerChunk\<close> allows an attempt, a chunk that is
  handed a permit or wakes from its backoff pause is rejected with an \<open>AbortError\<close>
  before it executes.
\<close>

lemma abort_checked_until_settled:
  "(abortController (processor s) = Some True \<and> run work es s = Some s' \<and> \<not> settled s' \<longrightarrow>
      started s' = started s \<and> loop_i s' = loop_i s) \<and>
   (abortController (processor s) = Some True \<and> main s = InLoop \<and> loop_i s < length (chunks s) \<longrightarrow>
      main_step s = Some (settle (Thrown AbortError) s)) \<and>
   (0 < m \<longrightarrow> processChunkWithRetries_step m True failure Granted = Some (Rejected AbortError, [])) \<and>
   (int a < m \<longrightarrow>
      processChunkWithRetries_step m True failure (Backoff a) = Some (Rejected AbortError, [])) \<and>
   (abortController (processor s) \<noteq> None \<longrightarrow> abortController (processor (abort s)) = Some True)"
proof (intro conjI impI)
  assume "abortController (processor s) = Some True \<and> run work es s = Some s' \<and> \<not> settled s'"
  then have "started s' = started s \<and> loop_i s' = loop_i s \<and> abortController (processor s') = Some True"
    using run_aborted[of s work es s'] by blast
  then show "started s' = started s" and "loop_i s' = loop_i s" by simp_all
next
  assume "abortController (processor s) = Some True \<and> main s = InLoop \<and> loop_i s < length (chunks s)"
  then show "main_step s = Some (settle (Thrown AbortError) s)"
    by (simp add: main_step_def main_block_aborted)
next
  assume "abortController (processor s) \<noteq> None"
  then show "abortController (processor (abort s)) = Some True"
    by (auto simp: abort_def)
qed (simp_all add: retry_head_def)

text \<open>
  The cancellation is cooperative: \<open>abort()\<close> called while the only chunk of a run is in
  flight interrupts nothing; no check of the signal follows, the chunk finishes and the
  run returns its data.
\<close>

lemma abort_during_last_chunk_example:
  "map_option (abortController \<circ> processor) (single_chunk [tick 0, tick 0, Main, AbortCall]) =
     Some (Some True) \<and>
   map_option (is_returned \<circ> main) (single_chunk [tick 0, tick 0, Main, AbortCall, tick 0, Main]) =
     Some True"
  by code_simp

text \<open>
  C6 on the code. Twelve chunks of one node, one permit. Chunk 0 has finished, chunk 1
  is in flight and chunks 2 to 10 wait in the semaphore's queue when \<open>abort()\<close> is
  called, during the second yield of the submission loop. The loop's next iteration
  checks the signal and throws; the run settles with \<open>AbortError\<close>, and the \<open>finally\<close>
  block of \<open>processLargeFigmaFile\<close> sets \<open>abortController\<close> to \<open>null\<close>. Chunk 1 then
  finishes and releases its permit to chunk 2, whose check
  \<open>this.abortController?.signal.aborted\<close> reads undefined: chunk 2 begins its
  execution, after \<open>abort()\<close> and after the run was reported as aborted.
  In the real-time processor without a \<open>Worker\<close>, \<open>stopProcessing\<close> is called while the
  first of two batches is in flight and sets the status to error; the batch finishes,
  the loop leaves at its next iteration, and the statement after the loop sets the
  status to completed.
\<close>

theorem abort_then_queued_chunk_executes:
  "map_option (abortController \<circ> processor)
     (twelve_chunks [tick 0, tick 0, Main, tick 0, tick 1, tick 1, AbortCall]) = Some (Some True) \<and>
   map_option started
     (twelve_chunks [tick 0, tick 0, Main, tick 0, tick 1, tick 1, AbortCall]) =
     Some [(0, 0), (1, 0)] \<and>
   map_option main
     (twelve_chunks [tick 0, tick 0, Main, tick 0, tick 1, tick 1, AbortCall, Main]) =
     Some (Settled (Thrown AbortError)) \<and>
   map_option (abortController \<circ> processor)
     (twelve_chunks [tick 0, tick 0, Main, tick 0, tick 1, tick 1, AbortCall, Main]) = Some None \<and>
   map_option tasks
     (twelve_chunks [tick 0, tick 0, Main, tick 0, tick 1, tick 1, AbortCall, Main]) =
     Some [Fulfilled, Sleeping, Waiting, Waiting, Waiting, Waiting, Waiting, Waiting, Waiting,
           Waiting, Waiting, Unsubmitted] \<and>
   map_option started
     (twelve_chunks [tick 0, tick 0, Main, tick 0, tick 1, tick 1, AbortCall, Main, tick 1, tick 2]) =
     Some [(0, 0), (1, 0), (2, 0)] \<and>
   map_option tasks
     (twelve_chunks [tick 0, tick 0, Main, tick 0, tick 1, tick 1, AbortCall, Main, tick 1, tick 2]) =
     Some [Fulfilled, Fulfilled, Running 0, Waiting, Waiting, Waiting, Waiting, Waiting, Waiting,
           Waiting, Waiting, Unsubmitted] \<and>
   map_option run_status (paused_in_main_thread [StopCall ''s'']) = Some Error \<and>
   map_option run_status (paused_in_main_thread [StopCall ''s'', TimerFires, TimerFires]) =
     Some Completed"
proof -
  have a: "map_option (abortController \<circ> processor)
     (twelve_chunks [tick 0, tick 0, Main, tick 0, tick 1, tick 1, AbortCall]) = Some (Some True)"
    "map_option started
     (twelve_chunks [tick 0, tick 0, Main, tick 0, tick 1, tick 1, AbortCall]) =
     Some [(0, 0), (1, 0)]"
    by code_simp+
  have b: "map_option main
     (twelve_chunks [tick 0, tick 0, Main, tick 0, tick 1, tick 1, AbortCall, Main]) =
     Some (Settled (Thrown AbortError))"
    "map_option (abortController \<circ> processor)
     (twelve_chunks [tick 0, tick 0, Main, tick 0, tick 1, tick 1, AbortCall, Main]) = Some None"
    "map_option tasks
     (twelve_chunks [tick 0, tick 0, Main, tick 0, tick 1, tick 1, AbortCall, Main]) =
     Some [Fulfilled, Sleeping, Waiting, Waiting, Waiting, Waiting, Waiting, Waiting, Waiting,
           Waiting, Waiting, Unsubmitted]"
    by code_simp+
  have c: "map_option started
     (twelve_chunks [tick 0, tick 0, Main, tick 0, tick 1, tick 1, AbortCall, Main, tick 1, tick 2]) =
     Some [(0, 0), (1, 0), (2, 0)]"
    "map_option tasks
     (twelve_chunks [tick 0, tick 0, Main, tick 0, tick 1, tick 1, AbortCall, Main, tick 1, tick 2]) =
     Some [Fulfilled, Fulfilled, Running 0, Waiting, Waiting, Waiting, Waiting, Waiting, Waiting,
           Waiting, Waiting, Unsubmitted]"
    by code_simp+
  have d: "map_option run_status (paused_in_main_thread [StopCall ''s'']) = Some Error"
    "map_option run_status (paused_in_main_thread [StopCall ''s'', TimerFires, TimerFires]) =
     Some Completed"
    by (simp_all add: paused_in_main_thread_def startProcessing_mainThread_def leaf_def frame_def
        createBatches_def createBatches_loop.simps js_slice_def new_RealTimeProcessor_def
        rt_config_with_def mt_head_def mt_resume_def mt_after_batch_def mt_finish_def
        emitEvent_def addEventListener_def set_status_def run_status_def
        stopProcessing_def Let_def)
  from a b c d show ?thesis by simp
qed

text \<open>
  C7 (as amended). However a run of \<open>processLargeFigmaFile\<close> is scheduled: if it returns,
  it returns the \<open>processedData\<close> with its statistics and every chunk's promise was
  fulfilled; if it throws, the error is the \<open>AbortError\<close> or the error of a chunk whose
  promise was rejected, and nothing else is handed to the caller; a run in which a
  chunk's promise was rejected never returns data. A chunk rejects when its last
  attempt fails; \<open>Promise.all\<close> takes the first rejection it sees, and the main task
  settles by throwing that error.
\<close>

theorem outcome_of_run:
  "(processLargeFigmaFile this document onProgress now = Some s0 \<and> run work es s0 = Some s \<longrightarrow>
      (\<forall>d. main s = Settled (Returned d) \<longrightarrow> d = processedData s \<and> all_fulfilled (tasks s)) \<and>
      (\<forall>e. main s = Settled (Thrown e) \<longrightarrow>
           e = AbortError \<or> (\<exists>j < length (tasks s). tasks s ! j = Rejected e)) \<and>
      ((\<exists>j < length (tasks s). \<exists>e. tasks s ! j = Rejected e) \<longrightarrow> \<not> is_returned (main s))) \<and>
   (main q = AwaitAll \<and> allRejected q = Some e \<longrightarrow> main_step q = Some (settle (Thrown e) q)) \<and>
   (main q = AwaitAll \<and> allRejected q = None \<and> all_fulfilled (tasks q) \<longrightarrow>
      main_step q = Some (settle (Returned (processedData q)) q)) \<and>
   (main q = AwaitAll \<and> allRejected q = None \<longrightarrow>
      allRejected (finish_task j (Rejected e) q) = Some e) \<and>
   (m \<le> int (a + 1) \<longrightarrow>
      processChunkWithRetries_step m ab (Some e) (Running a) = Some (Rejected e, [])) \<and>
   main (settle out q) = Settled out"
proof (intro conjI impI allI)
  assume h: "processLargeFigmaFile this document onProgress now = Some s0 \<and> run work es s0 = Some s"
  then have inv: "pipe_inv s" using start_inv run_inv by blast
  then have mc: "main_consistent s (main s)" unfolding pipe_inv_def by blast
  {
    fix d assume "main s = Settled (Returned d)"
    with mc show "d = processedData s" and "all_fulfilled (tasks s)" by simp_all
  }
  {
    fix e assume "main s = Settled (Thrown e)"
    with mc show "e = AbortError \<or> (\<exists>j < length (tasks s). tasks s ! j = Rejected e)" by simp
  }
  {
    assume r: "\<exists>j < length (tasks s). \<exists>e. tasks s ! j = Rejected e"
    show "\<not> is_returned (main s)"
    proof
      assume "is_returned (main s)"
      then obtain d where "main s = Settled (Returned d)"
        by (cases "main s" rule: is_returned.cases) auto
      with mc have "all_fulfilled (tasks s)" by simp
      with r show False by (auto simp: all_fulfilled_def list_all_length)
    qed
  }
qed (simp_all add: main_step_def finish_task_fields settle_def)

theorem outcome_of_run_witness:
  "processLargeFigmaFile (processor_with 1 3 1) (frame ''0'' [leaf ''1'']) True 1000 =
     Some (the (failing_run 1 [])) \<and>
   run (chunk_fails 1) [tick 0, tick 0, Main, tick 1, tick 1, Main] (the (failing_run 1 [])) =
     Some (the (failing_run 1 [tick 0, tick 0, Main, tick 1, tick 1, Main])) \<and>
   main (the (failing_run 1 [tick 0, tick 0, Main, tick 1, tick 1, Main])) =
     Settled (Thrown (ChunkFailure ''injected failure'')) \<and>
   tasks (the (failing_run 1 [tick 0, tick 0, Main, tick 1, tick 1, Main])) ! 1 =
     Rejected (ChunkFailure ''injected failure'') \<and>
   \<not> is_returned (main (the (failing_run 1 [tick 0, tick 0, Main, tick 1, tick 1, Main]))) \<and>
   main (the (failing_run 1 [tick 0, tick 0, Main, tick 1, tick 1])) = AwaitAll \<and>
   allRejected (the (failing_run 1 [tick 0, tick 0, Main, tick 1, tick 1])) =
     Some (ChunkFailure ''injected failure'') \<and>
   processLargeFigmaFile (processor_with 50 3 3) (leaf ''1'') True 1000 = Some (the (single_chunk [])) \<and>
   run no_failures [tick 0, tick 0, Main, tick 0, Main] (the (single_chunk [])) =
     Some (the (single_chunk [tick 0, tick 0, Main, tick 0, Main])) \<and>
   main (the (single_chunk [tick 0, tick 0, Main, tick 0, Main])) =
     Settled (Returned (processedData (the (single_chunk [tick 0, tick 0, Main, tick 0, Main])))) \<and>
   main (the (single_chunk [tick 0, tick 0, Main, tick 0])) = AwaitAll \<and>
   allRejected (the (single_chunk [tick 0, tick 0, Main, tick 0])) = None \<and>
   all_fulfilled (tasks (the (single_chunk [tick 0, tick 0, Main, tick 0]))) \<and>
   main_step (the (single_chunk [tick 0, tick 0, Main, tick 0])) =
     Some (settle (Returned (processedData (the (single_chunk [tick 0, tick 0, Main, tick 0]))))
            (the (single_chunk [tick 0, tick 0, Main, tick 0])))"
proof -
  have h1: "processLargeFigmaFile (processor_with 1 3 1) (frame ''0'' [leaf ''1'']) True 1000 =
     Some (the (failing_run 1 []))"
    by code_simp
  have h2: "run (chunk_fails 1) [tick 0, tick 0, Main, tick 1, tick 1, Main] (the (failing_run 1 [])) =
     Some (the (failing_run 1 [tick 0, tick 0, Main, tick 1, tick 1, Main]))"
    by code_simp
  have h3: "main (the (failing_run 1 [tick 0, tick 0, Main, tick 1, tick 1, Main])) =
     Settled (Thrown (ChunkFailure ''injected failure''))"
    by code_simp
  have h4: "tasks (the (failing_run 1 [tick 0, tick 0, Main, tick 1, tick 1, Main])) ! 1 =
     Rejected (ChunkFailure ''injected failure'') \<and>
     length (tasks (the (failing_run 1 [tick 0, tick 0, Main, tick 1, tick 1, Main]))) = 2"
    by code_simp
  have h5: "main (the (failing_run 1 [tick 0, tick 0, Main, tick 1, tick 1])) = AwaitAll \<and>
   allRejected (the (failing_run 1 [tick 0, tick 0, Main, tick 1, tick 1])) =
     Some (ChunkFailure ''injected failure'')"
    by code_simp
  have k1: "processLargeFigmaFile (processor_with 50 3 3) (leaf ''1'') True 1000 = Some (the (single_chunk []))"
    by code_simp
  have k2: "run no_failures [tick 0, tick 0, Main, tick 0, Main] (the (single_chunk [])) =
     Some (the (single_chunk [tick 0, tick 0, Main, tick 0, Main]))"
    by code_simp
  have k3: "is_returned (main (the (single_chunk [tick 0, tick 0, Main, tick 0, Main])))"
    by code_simp
  have k4: "main (the (single_chunk [tick 0, tick 0, Main, tick 0])) = AwaitAll \<and>
   allRejected (the (single_chunk [tick 0, tick 0, Main, tick 0])) = None \<and>
   all_fulfilled (tasks (the (single_chunk [tick 0, tick 0, Main, tick 0])))"
    by code_simp
  note a = outcome_of_run
         [of "processor_with 1 3 1" "frame ''0'' [leaf ''1'']" True 1000 "the (failing_run 1 [])"
             "chunk_fails 1" "[tick 0, tick 0, Main, tick 1, tick 1, Main]"
             "the (failing_run 1 [tick 0, tick 0, Main, tick 1, tick 1, Main])"
             "the (failing_run 1 [tick 0, tick 0, Main, tick 1, tick 1])"
             "ChunkFailure ''injected failure''" 1 1 0 False
             "Thrown (ChunkFailure ''injected failure'')"]
  note b = outcome_of_run
         [of "processor_with 50 3 3" "leaf ''1''" True 1000 "the (single_chunk [])"
             no_failures "[tick 0, tick 0, Main, tick 0, Main]"
             "the (single_chunk [tick 0, tick 0, Main, tick 0, Main])"
             "the (single_chunk [tick 0, tick 0, Main, tick 0])"
             "ChunkFailure ''injected failure''" 1 1 0 False
             "Thrown (ChunkFailure ''injected failure'')"]
  from k3 obtain d where d: "main (the (single_chunk [tick 0, tick 0, Main, tick 0, Main])) = Settled (Returned d)"
    by (cases "main (the (single_chunk [tick 0, tick 0, Main, tick 0, Main]))" rule: is_returned.cases) auto
  with b k1 k2 have "d = processedData (the (single_chunk [tick 0, tick 0, Main, tick 0, Main]))"
    by blast
  with d have k5: "main (the (single_chunk [tick 0, tick 0, Main, tick 0, Main])) =
     Settled (Returned (processedData (the (single_chunk [tick 0, tick 0, Main, tick 0, Main]))))"
    by simp
  from b k4 have k6: "main_step (the (single_chunk [tick 0, tick 0, Main, tick 0])) =
     Some (settle (Returned (processedData (the (single_chunk [tick 0, tick 0, Main, tick 0]))))
            (the (single_chunk [tick 0, tick 0, Main, tick 0])))"
    by blast
  from a h1 h2 h3 h4 h5 have "\<not> is_returned (main (the (failing_run 1 [tick 0, tick 0, Main, tick 1, tick 1, Main])))"
    by auto
  with h1 h2 h3 h4 h5 k1 k2 k4 k5 k6 show ?thesis by simp
qed

text \<open>
  C7 as stated fails: the chunk with index 1 exhausts its single attempt after chunk 0
  was processed. The caller gets the bare error; the processed node and the statistics
  stay in an object the caller never sees. The run in which chunk 0 fails, with nothing
  processed, has the very same outcome.
\<close>

theorem failed_run_outcome_counterexample:
  "map_option main (failing_run 1 [tick 0, tick 0, Main, tick 1, tick 1, Main]) =
     Some (Settled (Thrown (ChunkFailure ''injected failure''))) \<and>
   map_option (length \<circ> processedNodes \<circ> processedData)
     (failing_run 1 [tick 0, tick 0, Main, tick 1, tick 1, Main]) = Some 1 \<and>
   map_option (st_processedNodes \<circ> stats \<circ> processedData)
     (failing_run 1 [tick 0, tick 0, Main, tick 1, tick 1, Main]) = Some 1 \<and>
   map_option main (failing_run 0 [tick 0, tick 0, Main, Main]) =
     Some (Settled (Thrown (ChunkFailure ''injected failure''))) \<and>
   map_option (length \<circ> processedNodes \<circ> processedData)
     (failing_run 0 [tick 0, tick 0, Main, Main]) = Some 0"
  by code_simp

section \<open>Permits and progress over whole runs\<close>

lemma length_filter_update:
  "j < length xs \<Longrightarrow>
   int (length (filter P (xs[j := y]))) =
     int (length (filter P xs)) - (if P (xs ! j) then 1 else 0) + (if P y then 1 else 0)"
proof (induction xs arbitrary: j)
  case Nil
  then show ?case by simp
next
  case (Cons x xs)
  show ?case
  proof (cases j)
    case 0
    then show ?thesis by simp
  next
    case (Suc k)
    with Cons.prems have "k < length xs" by simp
    from Cons.IH[OF this] Suc show ?thesis by (auto split: if_splits)
  qed
qed

lemma config_maybeEmitProgress [simp]:
  "config (maybeEmitProgress r t p c n this) = config this"
  by (simp add: maybeEmitProgress_cases)

lemma config_commit [simp]:
  "config (processor (processChunk_commit r j pc s)) = config (processor s)"
  by (simp add: processChunk_commit_def Let_def)

lemma submit_permits:
  assumes inv: "pipe_inv s" and ok: "permits_ok s" and i: "loop_i s < length (chunks s)"
    and acq: "acquire (loop_i s) (semaphore s) = (sem', granted)"
  shows "permits_ok (s\<lparr> semaphore := sem',
                        tasks := (tasks s)[loop_i s := (if granted then Granted else Waiting)],
                        loop_i := loop_i s + 1 \<rparr>)"
proof -
  from inv have len: "length (tasks s) = length (chunks s)"
    and uns: "\<forall>j < length (tasks s). loop_i s \<le> j \<longrightarrow> tasks s ! j = Unsubmitted"
    unfolding pipe_inv_def by blast+
  with i have ti: "tasks s ! loop_i s = Unsubmitted" and il: "loop_i s < length (tasks s)" by simp_all
  have cnt: "int (length (filter active ((tasks s)[loop_i s := (if granted then Granted else Waiting)]))) =
      int (length (filter active (tasks s))) + (if granted then 1 else 0)"
    using length_filter_update[OF il, of active] ti by simp
  have p: "permits sem' = permits (semaphore s) - (if granted then 1 else 0)"
    "granted \<longrightarrow> 0 < permits (semaphore s)"
    using acq by (auto simp: acquire_def split: if_splits)
  show ?thesis using ok cnt p by (auto simp: permits_ok_def)
qed

lemma main_block_permits:
  "pipe_inv s \<Longrightarrow> permits_ok s \<Longrightarrow> main s = InLoop \<Longrightarrow> permits_ok (main_block s)"
proof (induction "length (chunks s) - loop_i s" arbitrary: s rule: less_induct)
  case less
  show ?case
  proof (cases "loop_i s < length (chunks s)")
    case False
    then have "main_block s = s\<lparr> main := AwaitAll, allRejected := first_rejected (tasks s) \<rparr>"
      by (subst main_block.simps) simp
    then show ?thesis using less.prems(2) by (simp add: permits_ok_def)
  next
    case True
    show ?thesis
    proof (cases "abortController (processor s) = Some True")
      case ab: True
      then have "main_block s = settle (Thrown AbortError) s"
        using True by (subst main_block.simps) simp
      then show ?thesis using less.prems(2) by (simp add: permits_ok_def settle_def)
    next
      case nab: False
      obtain sem' granted where acq: "acquire (loop_i s) (semaphore s) = (sem', granted)"
        by (cases "acquire (loop_i s) (semaphore s)") auto
      let ?s1 = "s\<lparr> semaphore := sem',
                      tasks := (tasks s)[loop_i s := (if granted then Granted else Waiting)],
                      loop_i := loop_i s + 1 \<rparr>"
      have inv1: "pipe_inv ?s1" using submit_inv[OF less.prems(1,3) True acq] .
      have ok1: "permits_ok ?s1" using submit_permits[OF less.prems(1,2) True acq] .
      have mb: "main_block s = (if loop_i s mod 10 = 0 then ?s1 else main_block ?s1)"
        using True nab acq by (subst main_block.simps) (simp add: Let_def)
      show ?thesis
      proof (cases "loop_i s mod 10 = 0")
        case True
        then show ?thesis using mb ok1 by simp
      next
        case False
        have "length (chunks ?s1) - loop_i ?s1 < length (chunks s) - loop_i s"
          using True by simp
        from less.hyps[OF this inv1 ok1] less.prems(3) have "permits_ok (main_block ?s1)" by simp
        then show ?thesis using mb False by simp
      qed
    qed
  qed
qed

lemma main_step_permits:
  assumes "pipe_inv s" "permits_ok s" "main_step s = Some s'"
  shows "permits_ok s'"
proof (cases "main s")
  case InLoop
  with assms show ?thesis by (auto simp: main_step_def main_block_permits)
next
  case AwaitAll
  with assms show ?thesis
    by (auto simp: main_step_def settle_def permits_ok_def split: option.splits if_splits)
next
  case (Settled out)
  with assms show ?thesis by (simp add: main_step_def)
qed

lemma finish_task_permits:
  assumes inv: "pipe_inv s" and ok: "permits_ok s" and j: "j < length (tasks s)"
    and act: "active (tasks s ! j)" and ph: "is_settled ph"
  shows "permits_ok (finish_task j ph s)"
proof -
  from inv have que: "\<forall>w \<in> set (queue (semaphore s)). w < length (tasks s) \<and> tasks s ! w = Waiting"
    unfolding pipe_inv_def by blast
  from ph have nph: "\<not> active ph" by (cases ph) auto
  have c1: "int (length (filter active ((tasks s)[j := ph]))) = int (length (filter active (tasks s))) - 1"
    using length_filter_update[OF j, of active ph] act nph by simp
  have ps: "permits (semaphore (finish_task j ph s)) =
      (if queue (semaphore s) = [] then permits (semaphore s) + 1 else permits (semaphore s))"
    by (cases "queue (semaphore s)") (simp_all add: finish_task_def release_def Let_def)
  show ?thesis
  proof (cases "queue (semaphore s)")
    case Nil
    then show ?thesis using ok c1 ps
      by (simp add: permits_ok_def finish_task_queue finish_task_fields)
  next
    case (Cons w rest)
    with que have w: "w < length (tasks s)" "tasks s ! w = Waiting" by simp_all
    with act have wj: "w \<noteq> j" by auto
    have "int (length (filter active ((tasks s)[j := ph, w := Granted]))) =
        int (length (filter active ((tasks s)[j := ph]))) + 1"
      using length_filter_update[of w "(tasks s)[j := ph]" active Granted] w wj by simp
    with c1 have "int (length (filter active ((tasks s)[j := ph, w := Granted]))) =
        int (length (filter active (tasks s)))" by simp
    then show ?thesis using ok ps Cons
      by (simp add: permits_ok_def finish_task_queue finish_task_fields)
  qed
qed

lemma set_phase_permits:
  assumes ok: "permits_ok s" and j: "j < length (tasks s)" and act: "active (tasks s ! j)"
    and ph: "active ph"
  shows "permits_ok (s\<lparr> tasks := (tasks s)[j := ph] \<rparr>)"
  using length_filter_update[OF j, of active ph] ok act ph
  by (simp add: permits_ok_def)

lemma task_step_permits:
  assumes inv: "pipe_inv s" and ok: "permits_ok s" and st: "task_step work j r s = Some s'"
  shows "permits_ok s'"
proof -
  from task_step_shape[OF st] obtain ph' evs where j: "j < length (tasks s)"
    and ps: "processChunkWithRetries_step (maxRetriesPerChunk (config (processor s)))
       (abortController (processor s) = Some True)
       (case tasks s ! j of Running a \<Rightarrow> attempt_failure work j a (chunks s ! j) | _ \<Rightarrow> None)
       (tasks s ! j) = Some (ph', evs)"
    and a: "is_settled ph' \<longrightarrow> s' = finish_task j ph' (s\<lparr> trace := trace s @ map (Pair j) evs \<rparr>)"
    and b: "ph' = Sleeping \<longrightarrow>
       s' = (case processNodes (chunks s ! j) of
               Inr pc \<Rightarrow> processChunk_commit r j pc (s\<lparr> trace := trace s @ map (Pair j) evs \<rparr>)
             | Inl e \<Rightarrow> s\<lparr> trace := trace s @ map (Pair j) evs \<rparr>)\<lparr> tasks := (tasks s)[j := Sleeping] \<rparr>"
    and c: "\<not> is_settled ph' \<and> ph' \<noteq> Sleeping \<longrightarrow>
       s' = s\<lparr> trace := trace s @ map (Pair j) evs, tasks := (tasks s)[j := ph'] \<rparr>"
    by blast
  let ?s1 = "s\<lparr> trace := trace s @ map (Pair j) evs \<rparr>"
  from step_result_phase[OF ps] have act: "active (tasks s ! j)" and ph': "is_settled ph' \<or> active ph'"
    by auto
  have inv1: "pipe_inv ?s1" using inv by (simp add: trace_inv)
  have ok1: "permits_ok ?s1" using ok by (simp add: permits_ok_def)
  have j1: "j < length (tasks ?s1)" "active (tasks ?s1 ! j)" using j act by simp_all
  consider (settled) "is_settled ph'" | (sleeping) "ph' = Sleeping"
    | (other) "\<not> is_settled ph'" "ph' \<noteq> Sleeping"
    by blast
  then show ?thesis
  proof cases
    case settled
    from finish_task_permits[OF inv1 ok1 j1 settled] a settled show ?thesis by simp
  next
    case sleeping
    let ?s2 = "case processNodes (chunks s ! j) of
               Inr pc \<Rightarrow> processChunk_commit r j pc ?s1 | Inl e \<Rightarrow> ?s1"
    have ok2: "permits_ok ?s2" and t2: "tasks ?s2 = tasks s"
      using ok1 by (auto simp: permits_ok_def commit_fields split: sum.splits)
    have "permits_ok (?s2\<lparr> tasks := (tasks ?s2)[j := Sleeping] \<rparr>)"
      by (rule set_phase_permits[OF ok2]) (simp_all add: t2 j act)
    then show ?thesis using b sleeping t2 by simp
  next
    case other
    with ph' have ap: "active ph'" by simp
    have "permits_ok (?s1\<lparr> tasks := (tasks ?s1)[j := ph'] \<rparr>)"
      by (rule set_phase_permits[OF ok1 j1 ap])
    then show ?thesis using c other by simp
  qed
qed

lemma step_permits:
  assumes "pipe_inv s" "permits_ok s" "step work e s = Some s'"
  shows "permits_ok s'"
proof (cases e)
  case Main
  with assms show ?thesis using main_step_permits[of s s'] by simp
next
  case (Task j r)
  with assms show ?thesis using task_step_permits[of s work j r s'] by simp
next
  case AbortCall
  with assms show ?thesis by (auto simp: abort_def permits_ok_def)
qed

lemma run_permits:
  "pipe_inv s \<Longrightarrow> permits_ok s \<Longrightarrow> run work es s = Some s' \<Longrightarrow> permits_ok s'"
proof (induction es arbitrary: s)
  case Nil
  then show ?case by simp
next
  case (Cons e es)
  from Cons.prems(3) obtain s1 where s1: "step work e s = Some s1" "run work es s1 = Some s'"
    by (auto split: option.splits)
  from step_inv[OF Cons.prems(1) s1(1)] step_permits[OF Cons.prems(1,2) s1(1)] Cons.IH s1(2)
  show ?case by blast
qed

lemma main_block_processor:
  "processor (main_block s) = processor s \<or>
   processor (main_block s) =
     (processor s)\<lparr> memoryCheckInterval := False, abortController := None, progressCallback := False \<rparr>"
proof (induction "length (chunks s) - loop_i s" arbitrary: s rule: less_induct)
  case less
  show ?case
  proof (cases "loop_i s < length (chunks s)")
    case False
    then have "main_block s = s\<lparr> main := AwaitAll, allRejected := first_rejected (tasks s) \<rparr>"
      by (subst main_block.simps) simp
    then show ?thesis by simp
  next
    case True
    show ?thesis
    proof (cases "abortController (processor s) = Some True")
      case ab: True
      then have "main_block s = settle (Thrown AbortError) s"
        using True by (subst main_block.simps) simp
      then show ?thesis by (simp add: settle_def)
    next
      case nab: False
      obtain sem' granted where acq: "acquire (loop_i s) (semaphore s) = (sem', granted)"
        by (cases "acquire (loop_i s) (semaphore s)") auto
      let ?s1 = "s\<lparr> semaphore := sem',
                      tasks := (tasks s)[loop_i s := (if granted then Granted else Waiting)],
                      loop_i := loop_i s + 1 \<rparr>"
      have mb: "main_block s = (if loop_i s mod 10 = 0 then ?s1 else main_block ?s1)"
        using True nab acq by (subst main_block.simps) (simp add: Let_def)
      have "length (chunks ?s1) - loop_i ?s1 < length (chunks s) - loop_i s"
        using True by simp
      from less.hyps[OF this] mb show ?thesis by (cases "loop_i s mod 10 = 0") simp_all
    qed
  qed
qed

lemma reporter_inv_fields [simp]:
  "reporter_inv (p\<lparr> memoryCheckInterval := a, abortController := b, progressCallback := c \<rparr>) =
     reporter_inv p"
  "reporter_inv (p\<lparr> abortController := b \<rparr>) = reporter_inv p"
  by (simp_all add: reporter_inv_def)

lemma maybeEmitProgress_inv:
  "reporter_inv this \<Longrightarrow> reporter_inv (maybeEmitProgress r t p c n this)"
  using emit_update_inv
    [of this "\<lparr>upd_readings = r, upd_total = t, upd_processed = p, upd_current = c, upd_chunkTotal = n\<rparr>"]
  by (simp add: emit_update_def)

lemma step_processor:
  assumes st: "step work e s = Some s'"
  shows "config (processor s') = config (processor s) \<and>
         (reporter_inv (processor s) \<longrightarrow> reporter_inv (processor s'))"
proof (cases e)
  case Main
  with st have ms: "main_step s = Some s'" by simp
  show ?thesis
  proof (cases "main s")
    case InLoop
    with ms have "s' = main_block s" by (simp add: main_step_def)
    with main_block_processor[of s] show ?thesis by auto
  next
    case AwaitAll
    with ms show ?thesis
      by (auto simp: main_step_def settle_def split: option.splits if_splits)
  next
    case (Settled out)
    with ms show ?thesis by (simp add: main_step_def)
  qed
next
  case (Task j r)
  with st have ts: "task_step work j r s = Some s'" by simp
  from task_step_shape[OF ts] obtain ph' evs where
    a: "is_settled ph' \<longrightarrow> s' = finish_task j ph' (s\<lparr> trace := trace s @ map (Pair j) evs \<rparr>)"
    and b: "ph' = Sleeping \<longrightarrow>
       s' = (case processNodes (chunks s ! j) of
               Inr pc \<Rightarrow> processChunk_commit r j pc (s\<lparr> trace := trace s @ map (Pair j) evs \<rparr>)
             | Inl e \<Rightarrow> s\<lparr> trace := trace s @ map (Pair j) evs \<rparr>)\<lparr> tasks := (tasks s)[j := Sleeping] \<rparr>"
    and c: "\<not> is_settled ph' \<and> ph' \<noteq> Sleeping \<longrightarrow>
       s' = s\<lparr> trace := trace s @ map (Pair j) evs, tasks := (tasks s)[j := ph'] \<rparr>"
    by blast
  consider (settled) "is_settled ph'" | (sleeping) "ph' = Sleeping"
    | (other) "\<not> is_settled ph'" "ph' \<noteq> Sleeping"
    by blast
  then show ?thesis
  proof cases
    case settled
    with a show ?thesis by (simp add: finish_task_fields)
  next
    case sleeping
    with b show ?thesis
      by (cases "processNodes (chunks s ! j)")
         (simp_all add: processChunk_commit_def Let_def maybeEmitProgress_inv)
  next
    case other
    with c show ?thesis by simp
  qed
next
  case AbortCall
  with st show ?thesis by (auto simp: abort_def)
qed

lemma run_processor:
  "run work es s = Some s' \<Longrightarrow>
   config (processor s') = config (processor s) \<and>
   (reporter_inv (processor s) \<longrightarrow> reporter_inv (processor s'))"
proof (induction es arbitrary: s)
  case Nil
  then show ?case by simp
next
  case (Cons e es)
  from Cons.prems obtain s1 where s1: "step work e s = Some s1" "run work es s1 = Some s'"
    by (auto split: option.splits)
  from step_processor[OF s1(1)] Cons.IH[OF s1(2)] show ?case by simp
qed

lemma start_processor:
  assumes "processLargeFigmaFile this document onProgress now = Some s"
  shows "config (processor s) = config this \<and> (reporter_inv this \<longrightarrow> reporter_inv (processor s))"
proof -
  from assms obtain s0 where s: "s = main_block s0"
    and p0: "processor s0 = this\<lparr> progressCallback := onProgress, abortController := Some False,
                                  memoryCheckInterval := True \<rparr>"
    by (auto simp: processLargeFigmaFile_def Let_def split: option.splits)
  have "reporter_inv (processor s0) = reporter_inv this" "config (processor s0) = config this"
    by (simp_all add: p0 reporter_inv_def)
  with main_block_processor[of s0] s show ?thesis by auto
qed

lemma start_permits:
  assumes "processLargeFigmaFile this document onProgress now = Some s"
    and "0 \<le> maxConcurrentChunks (config this)"
  shows "permits_ok s"
proof -
  from assms(1) obtain cs s0 where s: "s = main_block s0" and s0: "main s0 = InLoop" "loop_i s0 = 0"
      "tasks s0 = replicate (length cs) Unsubmitted" "chunks s0 = cs"
      "queue (semaphore s0) = []" "allRejected s0 = None"
      "permits (semaphore s0) = maxConcurrentChunks (config this)"
      "config (processor s0) = config this"
    by (auto simp: processLargeFigmaFile_def Let_def Semaphore_constructor_def split: option.splits)
  have f: "filter active (replicate (length cs) Unsubmitted) = []" by (induction cs) auto
  have inv0: "pipe_inv s0" using s0 by (simp add: pipe_inv_def)
  have ok0: "permits_ok s0" using s0 assms(2) f by (simp add: permits_ok_def)
  from main_block_permits[OF inv0 ok0 s0(1)] show ?thesis using s by simp
qed

lemma executing_le_active:
  "length (filter executing ts) \<le> length (filter active ts)"
proof (induction ts)
  case Nil
  then show ?case by simp
next
  case (Cons ph ts)
  then show ?case by (cases ph) auto
qed

lemma run_permits_bound:
  assumes "processLargeFigmaFile this document onProgress now = Some s0"
    and "0 \<le> maxConcurrentChunks (config this)" and "run work es s0 = Some s"
  shows "int (length (filter executing (tasks s))) \<le> maxConcurrentChunks (config this) \<and>
         int (length (filter active (tasks s))) \<le> maxConcurrentChunks (config this) \<and>
         0 \<le> permits (semaphore s) \<and> permits (semaphore s) \<le> maxConcurrentChunks (config this)"
proof -
  from run_permits[OF start_inv[OF assms(1)] start_permits[OF assms(1,2)] assms(3)]
  have ok: "permits_ok s" .
  from start_processor[OF assms(1)] run_processor[OF assms(3)]
  have "config (processor s) = config this" by simp
  with ok executing_le_active[of "tasks s"] show ?thesis
    by (auto simp: permits_ok_def)
qed


text \<open>
  C2. Start a semaphore with capacity \<open>n \<ge> 0\<close> and let its clients acquire and release
  in any order. In every state reached, the number of clients that hold a permit and
  have not released it is at most \<open>n\<close>, the permit count is between 0 and \<open>n\<close>, and
  holders plus available permits are exactly \<open>n\<close>. In every state of every run of
  \<open>processLargeFigmaFile\<close> with \<open>maxConcurrentChunks \<ge> 0\<close>, whatever the schedule, at
  most \<open>maxConcurrentChunks\<close> chunks hold a permit, so at most that many are inside
  \<open>processChunk\<close>, and the permit count is between 0 and \<open>maxConcurrentChunks\<close>.
\<close>

theorem Semaphore_bound:
  "(0 \<le> n \<and> sem_run evs (sem_init n) = Some st \<longrightarrow>
      0 \<le> permits (sem st) \<and> permits (sem st) \<le> n \<and>
      int (length (holders st)) \<le> n \<and>
      int (length (holders st)) + permits (sem st) = n) \<and>
   (0 \<le> maxConcurrentChunks (config this) \<and>
    processLargeFigmaFile this document onProgress now = Some s0 \<and> run work es s0 = Some s \<longrightarrow>
      int (length (filter executing (tasks s))) \<le> maxConcurrentChunks (config this) \<and>
      int (length (filter active (tasks s))) \<le> maxConcurrentChunks (config this) \<and>
      0 \<le> permits (semaphore s) \<and> permits (semaphore s) \<le> maxConcurrentChunks (config this))"
proof (intro conjI impI)
  assume h: "0 \<le> n \<and> sem_run evs (sem_init n) = Some st"
  then have "sem_inv n (sem_init n)"
    by (simp add: sem_inv_def sem_init_def Semaphore_constructor_def)
  from sem_run_inv[OF this] h have i: "sem_inv n st" by blast
  then show "0 \<le> permits (sem st)" and "permits (sem st) \<le> n"
    and "int (length (holders st)) \<le> n"
    and "int (length (holders st)) + permits (sem st) = n"
    by (auto simp: sem_inv_def)
next
  assume h: "0 \<le> maxConcurrentChunks (config this) \<and>
    processLargeFigmaFile this document onProgress now = Some s0 \<and> run work es s0 = Some s"
  then have "int (length (filter executing (tasks s))) \<le> maxConcurrentChunks (config this) \<and>
         int (length (filter active (tasks s))) \<le> maxConcurrentChunks (config this) \<and>
         0 \<le> permits (semaphore s) \<and> permits (semaphore s) \<le> maxConcurrentChunks (config this)"
    using run_permits_bound[of this document onProgress now s0 work es s] by blast
  then show "int (length (filter executing (tasks s))) \<le> maxConcurrentChunks (config this)"
    and "int (length (filter active (tasks s))) \<le> maxConcurrentChunks (config this)"
    and "0 \<le> permits (semaphore s)"
    and "permits (semaphore s) \<le> maxConcurrentChunks (config this)"
    by simp_all
qed

theorem Semaphore_bound_witness:
  "(0::int) \<le> 2 \<and>
   sem_run [Acquire 0, Acquire 1, Acquire 2, Release 0, Acquire 3, Release 2] (sem_init 2) =
     Some \<lparr>sem = \<lparr>permits = 0, queue = []\<rparr>, holders = [1, 3]\<rparr> \<and>
   int (length [1::nat, 3]) + 0 = 2 \<and>
   0 \<le> maxConcurrentChunks (config (processor_with 1 1 3)) \<and>
   processLargeFigmaFile (processor_with 1 1 3) (frame ''0'' [leaf ''1'', leaf ''2'']) True 1000 =
     Some (the (three_chunks [])) \<and>
   run no_failures [tick 0, Main] (the (three_chunks [])) = Some (the (three_chunks [tick 0, Main])) \<and>
   tasks (the (three_chunks [tick 0, Main])) = [Running 0, Waiting, Waiting] \<and>
   int (length (filter executing (tasks (the (three_chunks [tick 0, Main]))))) \<le> 1"
proof -
  have h1: "0 \<le> maxConcurrentChunks (config (processor_with 1 1 3))"
    and h1': "maxConcurrentChunks (config (processor_with 1 1 3)) = 1"
    by (simp_all add: processor_with_def LargeFileProcessor_constructor_def orDefault_def
          empty_config_def default_processor_def)
  have h2: "processLargeFigmaFile (processor_with 1 1 3) (frame ''0'' [leaf ''1'', leaf ''2'']) True 1000 =
     Some (the (three_chunks []))"
    by code_simp
  have h3: "run no_failures [tick 0, Main] (the (three_chunks [])) = Some (the (three_chunks [tick 0, Main]))"
    by code_simp
  have h4: "tasks (the (three_chunks [tick 0, Main])) = [Running 0, Waiting, Waiting]"
    by code_simp
  have h5: "sem_run [Acquire 0, Acquire 1, Acquire 2, Release 0, Acquire 3, Release 2] (sem_init 2) =
     Some \<lparr>sem = \<lparr>permits = 0, queue = []\<rparr>, holders = [1, 3]\<rparr>"
    by (simp add: sem_init_def Semaphore_constructor_def acquire_def release_def)
  from Semaphore_bound
         [of 2 "[Acquire 0, Acquire 1, Acquire 2, Release 0, Acquire 3, Release 2]"
             "\<lparr>sem = \<lparr>permits = 0, queue = []\<rparr>, holders = [1, 3]\<rparr>"
             "processor_with 1 1 3" "frame ''0'' [leaf ''1'', leaf ''2'']" True 1000
             "the (three_chunks [])" no_failures "[tick 0, Main]" "the (three_chunks [tick 0, Main])"]
       h1 h1' h2 h3 h4 h5
  show ?thesis by simp
qed

text \<open>
  C9. Whatever the sequence of progress updates of a run that starts with an empty log,
  every invocation of the callback but the first is more than \<open>progressThrottleMS\<close>
  after the previous invocation or is a final update; an update is delivered exactly
  when a callback is registered and it arrives more than \<open>progressThrottleMS\<close> after
  the previous invocation or has \<open>processedNodes = totalNodes\<close>; so an update inside the
  throttle window that is not final is suppressed, and with a callback registered a
  final update is always delivered. The same rule holds for the invocations made in any
  run of \<open>processLargeFigmaFile\<close>, whatever the schedule and the clock readings.
\<close>

theorem maybeEmitProgress_throttled:
  "(delivered this = [] \<longrightarrow>
      spaced (progressThrottleMS (config this)) (delivered (emit_updates us this))) \<and>
   (reporter_inv this \<longrightarrow>
      spaced (progressThrottleMS (config this)) (delivered (emit_updates us this))) \<and>
   (progressCallback this \<and>
      (now_emit r - lastProgressEmitTime this > progressThrottleMS (config this) \<or> processed = totalCount) \<longrightarrow>
      (\<exists>p. delivered (maybeEmitProgress r totalCount processed cur tot this) =
              delivered this @ [(now_emit r, p)] \<and>
            pr_totalNodes p = totalCount \<and> pr_processedNodes p = processed \<and>
            currentChunk p = cur \<and> totalChunks p = tot) \<and>
      lastProgressEmitTime (maybeEmitProgress r totalCount processed cur tot this) = now_emit r) \<and>
   (\<not> (progressCallback this \<and>
      (now_emit r - lastProgressEmitTime this > progressThrottleMS (config this) \<or> processed = totalCount)) \<longrightarrow>
      maybeEmitProgress r totalCount processed cur tot this = this) \<and>
   (reporter_inv p0 \<and> processLargeFigmaFile p0 document onProgress now = Some s0 \<and>
    run work es s0 = Some s \<longrightarrow>
      spaced (progressThrottleMS (config p0)) (delivered (processor s)))"
proof (intro conjI impI)
  assume "delivered this = []"
  then have "reporter_inv this" by (simp add: reporter_inv_def)
  from emit_updates_inv[OF this, of us]
  show "spaced (progressThrottleMS (config this)) (delivered (emit_updates us this))"
    by (simp add: reporter_inv_def emit_updates_static)
next
  assume "reporter_inv this"
  from emit_updates_inv[OF this, of us]
  show "spaced (progressThrottleMS (config this)) (delivered (emit_updates us this))"
    by (simp add: reporter_inv_def emit_updates_static)
next
  assume h: "reporter_inv p0 \<and> processLargeFigmaFile p0 document onProgress now = Some s0 \<and>
    run work es s0 = Some s"
  then have "config (processor s0) = config p0" "reporter_inv (processor s0)"
    using start_processor[of p0 document onProgress now s0] by simp_all
  moreover from h have "config (processor s) = config (processor s0)"
    "reporter_inv (processor s0) \<longrightarrow> reporter_inv (processor s)"
    using run_processor[of work es s0 s] by simp_all
  ultimately show "spaced (progressThrottleMS (config p0)) (delivered (processor s))"
    by (simp add: reporter_inv_def)
qed (auto simp: maybeEmitProgress_cases)

theorem maybeEmitProgress_throttled_witness:
  "delivered (default_processor\<lparr>progressCallback := True\<rparr>) = [] \<and>
   map fst (delivered (emit_updates
     [\<lparr>upd_readings = \<lparr>now_emit = 1000, now_eta = 1000, memory = 10\<rparr>, upd_total = 150,
        upd_processed = 50, upd_current = 1, upd_chunkTotal = 3\<rparr>,
      \<lparr>upd_readings = \<lparr>now_emit = 1100, now_eta = 1100, memory = 10\<rparr>, upd_total = 150,
        upd_processed = 100, upd_current = 2, upd_chunkTotal = 3\<rparr>,
      \<lparr>upd_readings = \<lparr>now_emit = 1150, now_eta = 1150, memory = 10\<rparr>, upd_total = 150,
        upd_processed = 150, upd_current = 3, upd_chunkTotal = 3\<rparr>]
     (default_processor\<lparr>progressCallback := True\<rparr>))) = [1000, 1150] \<and>
   spaced 200 (delivered (emit_updates
     [\<lparr>upd_readings = \<lparr>now_emit = 1000, now_eta = 1000, memory = 10\<rparr>, upd_total = 150,
        upd_processed = 50, upd_current = 1, upd_chunkTotal = 3\<rparr>,
      \<lparr>upd_readings = \<lparr>now_emit = 1100, now_eta = 1100, memory = 10\<rparr>, upd_total = 150,
        upd_processed = 100, upd_current = 2, upd_chunkTotal = 3\<rparr>,
      \<lparr>upd_readings = \<lparr>now_emit = 1150, now_eta = 1150, memory = 10\<rparr>, upd_total = 150,
        upd_processed = 150, upd_current = 3, upd_chunkTotal = 3\<rparr>]
     (default_processor\<lparr>progressCallback := True\<rparr>))) \<and>
   reporter_inv (processor_with 1 1 3) \<and>
   processLargeFigmaFile (processor_with 1 1 3) (frame ''0'' [leaf ''1'', leaf ''2'']) True 1000 =
     Some (the (three_chunks [])) \<and>
   run no_failures [tick 0, tick 0, Main, tick 0, tick 1, tick 1, tick 1, tick 2, tick 2]
     (the (three_chunks [])) =
     Some (the (three_chunks [tick 0, tick 0, Main, tick 0, tick 1, tick 1, tick 1, tick 2, tick 2])) \<and>
   map (pr_processedNodes \<circ> snd) (delivered (processor
     (the (three_chunks [tick 0, tick 0, Main, tick 0, tick 1, tick 1, tick 1, tick 2, tick 2])))) =
     [1, 3] \<and>
   spaced 200 (delivered (processor
     (the (three_chunks [tick 0, tick 0, Main, tick 0, tick 1, tick 1, tick 1, tick 2, tick 2]))))"
proof -
  have h0: "progressThrottleMS (config (processor_with 1 1 3)) = 200"
    by (simp add: processor_with_def LargeFileProcessor_constructor_def orDefault_def
          empty_config_def default_processor_def)
  have h1: "reporter_inv (processor_with 1 1 3)"
    by (simp add: reporter_inv_def processor_with_def default_processor_def)
  have h2: "processLargeFigmaFile (processor_with 1 1 3) (frame ''0'' [leaf ''1'', leaf ''2'']) True 1000 =
     Some (the (three_chunks []))"
    by code_simp
  have h3: "run no_failures [tick 0, tick 0, Main, tick 0, tick 1, tick 1, tick 1, tick 2, tick 2]
     (the (three_chunks [])) =
     Some (the (three_chunks [tick 0, tick 0, Main, tick 0, tick 1, tick 1, tick 1, tick 2, tick 2]))"
    by code_simp
  have h4: "map (pr_processedNodes \<circ> snd) (delivered (processor
     (the (three_chunks [tick 0, tick 0, Main, tick 0, tick 1, tick 1, tick 1, tick 2, tick 2])))) =
     [1, 3]"
    by code_simp
  have h5: "map fst (delivered (emit_updates
     [\<lparr>upd_readings = \<lparr>now_emit = 1000, now_eta = 1000, memory = 10\<rparr>, upd_total = 150,
        upd_processed = 50, upd_current = 1, upd_chunkTotal = 3\<rparr>,
      \<lparr>upd_readings = \<lparr>now_emit = 1100, now_eta = 1100, memory = 10\<rparr>, upd_total = 150,
        upd_processed = 100, upd_current = 2, upd_chunkTotal = 3\<rparr>,
      \<lparr>upd_readings = \<lparr>now_emit = 1150, now_eta = 1150, memory = 10\<rparr>, upd_total = 150,
        upd_processed = 150, upd_current = 3, upd_chunkTotal = 3\<rparr>]
     (default_processor\<lparr>progressCallback := True\<rparr>))) = [1000, 1150] \<and>
     progressThrottleMS (config (default_processor\<lparr>progressCallback := True\<rparr>)) = 200"
    by (simp add: default_processor_def LargeFileProcessor_constructor_def empty_config_def
          orDefault_def emit_update_def maybeEmitProgress_cases)
  from maybeEmitProgress_throttled
    [of "default_processor\<lparr>progressCallback := True\<rparr>"
        "[\<lparr>upd_readings = \<lparr>now_emit = 1000, now_eta = 1000, memory = 10\<rparr>, upd_total = 150,
            upd_processed = 50, upd_current = 1, upd_chunkTotal = 3\<rparr>,
          \<lparr>upd_readings = \<lparr>now_emit = 1100, now_eta = 1100, memory = 10\<rparr>, upd_total = 150,
            upd_processed = 100, upd_current = 2, upd_chunkTotal = 3\<rparr>,
          \<lparr>upd_readings = \<lparr>now_emit = 1150, now_eta = 1150, memory = 10\<rparr>, upd_total = 150,
            upd_processed = 150, upd_current = 3, upd_chunkTotal = 3\<rparr>]"
        "\<lparr>now_emit = 1000, now_eta = 1000, memory = 10\<rparr>" 50 150 1 3
        "processor_with 1 1 3" "frame ''0'' [leaf ''1'', leaf ''2'']" True 1000 "the (three_chunks [])"
        no_failures "[tick 0, tick 0, Main, tick 0, tick 1, tick 1, tick 1, tick 2, tick 2]"
        "the (three_chunks [tick 0, tick 0, Main, tick 0, tick 1, tick 1, tick 1, tick 2, tick 2])"]
    h0 h1 h2 h3 h4 h5
  show ?thesis by (simp add: default_processor_def)
qed

section \<open>Retries over whole runs\<close>

lemma failed_attempts_Suc:
  "failed_attempts (Suc a) = failed_attempts a @ [Executed a, Waited (100 * 2 ^ (a + 1))]"
  by (simp add: failed_attempts_def)

lemma retry_schedule_failed_attempts:
  "0 < n \<Longrightarrow> retry_schedule 0 n = failed_attempts (n - 1) @ [Executed (n - 1)]"
  by (simp add: retry_schedule_def failed_attempts_def)

lemma failed_attempts_prefix:
  "a \<le> b \<Longrightarrow> prefix (failed_attempts a) (failed_attempts b)"
proof (induction b)
  case 0
  then show ?case by simp
next
  case (Suc b)
  show ?case
  proof (cases "a = Suc b")
    case True
    then show ?thesis by simp
  next
    case False
    with Suc.prems have "a \<le> b" by simp
    from Suc.IH[OF this] show ?thesis by (simp add: failed_attempts_Suc prefix_def) (metis append.assoc)
  qed
qed

lemma attempt_prefix_schedule:
  assumes "a < n"
  shows "prefix (failed_attempts a) (retry_schedule 0 n)"
    and "prefix (failed_attempts a @ [Executed a]) (retry_schedule 0 n)"
proof -
  from assms have n: "0 < n" by simp
  have p: "prefix (failed_attempts a) (failed_attempts (n - 1))"
    using assms by (simp add: failed_attempts_prefix)
  then show "prefix (failed_attempts a) (retry_schedule 0 n)"
    by (simp add: retry_schedule_failed_attempts[OF n] prefix_def) (metis append.assoc)
  show "prefix (failed_attempts a @ [Executed a]) (retry_schedule 0 n)"
  proof (cases "a = n - 1")
    case True
    then show ?thesis by (simp add: retry_schedule_failed_attempts[OF n])
  next
    case False
    with assms have "Suc a \<le> n - 1" by simp
    from failed_attempts_prefix[OF this]
    have "prefix (failed_attempts a @ [Executed a, Waited (100 * 2 ^ (a + 1))]) (failed_attempts (n - 1))"
      by (simp add: failed_attempts_Suc)
    then show ?thesis
      by (simp add: retry_schedule_failed_attempts[OF n] prefix_def) (metis append.assoc append_Cons append_Nil)
  qed
qed

text \<open>One resumption of a chunk's task keeps its phase and its trace together.\<close>

lemma retry_step_trace_ok:
  assumes "processChunkWithRetries_step m False (case ph of Running a \<Rightarrow> fails a | _ \<Rightarrow> None) ph
             = Some (ph', evs)"
    and "trace_ok m fails ph tr"
  shows "trace_ok m fails ph' (tr @ evs)"
proof (cases ph)
  case Granted
  with assms show ?thesis by (auto simp: retry_head_def failed_attempts_def split: if_splits)
next
  case (Backoff a)
  with assms show ?thesis by (auto simp: retry_head_def split: if_splits)
next
  case (Running a)
  show ?thesis
  proof (cases "fails a")
    case None
    with assms Running show ?thesis by auto
  next
    case (Some e)
    show ?thesis
    proof (cases "int (a + 1) \<ge> m")
      case True
      with assms Running Some have am: "a = nat m - 1" "1 \<le> m" "0 < nat m" by auto
      with assms Running Some True show ?thesis
        by (auto simp: Let_def retry_schedule_failed_attempts)
    next
      case False
      with assms Running Some show ?thesis
        by (auto simp: Let_def failed_attempts_Suc)
    qed
  qed
next
  case Sleeping
  with assms show ?thesis by auto
qed (use assms in auto)

lemma sum_list_task_rank_update:
  assumes "j < length ts" "f y < f (ts ! j)"
  shows "sum_list (map f (ts[j := y])) < sum_list (map (f :: 'a \<Rightarrow> nat) ts)"
  using assms
proof (induction ts arbitrary: j)
  case Nil
  then show ?case by simp
next
  case (Cons x xs)
  then show ?case by (cases j) auto
qed

text \<open>
  The submission loop as a chain of three kinds of transition: a relation that is
  transitive and holds along each of them holds between a state and its \<open>main_block\<close>.
\<close>

lemma main_block_chain:
  assumes inv: "pipe_inv s" and loop: "main s = InLoop"
    and trans: "\<And>a b c. R a b \<Longrightarrow> R b c \<Longrightarrow> R a c"
    and submit: "\<And>s sem' granted. pipe_inv s \<Longrightarrow> main s = InLoop \<Longrightarrow> loop_i s < length (chunks s) \<Longrightarrow>
        abortController (processor s) \<noteq> Some True \<Longrightarrow>
        acquire (loop_i s) (semaphore s) = (sem', granted) \<Longrightarrow>
        R s (s\<lparr> semaphore := sem',
                tasks := (tasks s)[loop_i s := (if granted then Granted else Waiting)],
                loop_i := loop_i s + 1 \<rparr>)"
    and ab: "\<And>s. pipe_inv s \<Longrightarrow> main s = InLoop \<Longrightarrow> loop_i s < length (chunks s) \<Longrightarrow>
        abortController (processor s) = Some True \<Longrightarrow> R s (settle (Thrown AbortError) s)"
    and fin: "\<And>s. pipe_inv s \<Longrightarrow> main s = InLoop \<Longrightarrow> \<not> loop_i s < length (chunks s) \<Longrightarrow>
        R s (s\<lparr> main := AwaitAll, allRejected := first_rejected (tasks s) \<rparr>)"
  shows "R s (main_block s)"
  using inv loop
proof (induction "length (chunks s) - loop_i s" arbitrary: s rule: less_induct)
  case less
  show ?case
  proof (cases "loop_i s < length (chunks s)")
    case False
    then have "main_block s = s\<lparr> main := AwaitAll, allRejected := first_rejected (tasks s) \<rparr>"
      by (subst main_block.simps) simp
    then show ?thesis using fin[OF less.prems False] by simp
  next
    case True
    show ?thesis
    proof (cases "abortController (processor s) = Some True")
      case ab': True
      then have "main_block s = settle (Thrown AbortError) s"
        using True by (subst main_block.simps) simp
      then show ?thesis using ab[OF less.prems True ab'] by simp
    next
      case nab: False
      obtain sem' granted where acq: "acquire (loop_i s) (semaphore s) = (sem', granted)"
        by (cases "acquire (loop_i s) (semaphore s)") auto
      let ?s1 = "s\<lparr> semaphore := sem',
                      tasks := (tasks s)[loop_i s := (if granted then Granted else Waiting)],
                      loop_i := loop_i s + 1 \<rparr>"
      have inv1: "pipe_inv ?s1" using submit_inv[OF less.prems(1,2) True acq] .
      have r1: "R s ?s1" using submit[OF less.prems True nab acq] .
      have mb: "main_block s = (if loop_i s mod 10 = 0 then ?s1 else main_block ?s1)"
        using True nab acq by (subst main_block.simps) (simp add: Let_def)
      show ?thesis
      proof (cases "loop_i s mod 10 = 0")
        case True
        then show ?thesis using mb r1 by simp
      next
        case False
        have "length (chunks ?s1) - loop_i ?s1 < length (chunks s) - loop_i s"
          using True by simp
        from less.hyps[OF this inv1] less.prems(2) have "R ?s1 (main_block ?s1)" by simp
        with r1 have "R s (main_block ?s1)" by (rule trans)
        then show ?thesis using mb False by simp
      qed
    qed
  qed
qed

text \<open>What one resumption of the task of chunk \<open>j\<close> changes.\<close>

lemma finish_task_tasks:
  assumes inv: "pipe_inv s" and j: "j < length (tasks s)" and act: "active (tasks s ! j)"
  shows "length (tasks (finish_task j ph s)) = length (tasks s) \<and>
         tasks (finish_task j ph s) ! j = ph \<and>
         (\<forall>k < length (tasks s). k \<noteq> j \<longrightarrow>
            tasks (finish_task j ph s) ! k = tasks s ! k \<or>
            (tasks s ! k = Waiting \<and> tasks (finish_task j ph s) ! k = Granted)) \<and>
         (queue (semaphore s) = [] \<and> queue (semaphore (finish_task j ph s)) = [] \<or>
          (\<exists>w. queue (semaphore s) = w # queue (semaphore (finish_task j ph s)) \<and>
                permits (semaphore (finish_task j ph s)) = permits (semaphore s) \<and>
                w < length (tasks s) \<and> tasks (finish_task j ph s) ! w = Granted))"
proof (cases "queue (semaphore s)")
  case Nil
  then show ?thesis using j by (simp add: finish_task_queue)
next
  case (Cons w rest)
  from inv have que: "\<forall>w \<in> set (queue (semaphore s)). w < length (tasks s) \<and> tasks s ! w = Waiting"
    unfolding pipe_inv_def by blast
  with Cons have w: "w < length (tasks s)" "tasks s ! w = Waiting" by simp_all
  with act have wj: "w \<noteq> j" by auto
  have p: "permits (semaphore (finish_task j ph s)) = permits (semaphore s)"
    using Cons by (simp add: finish_task_def release_def Let_def)
  show ?thesis using Cons w wj j p
    by (auto simp: finish_task_queue nth_list_update)
qed

lemma task_step_effect:
  assumes inv: "pipe_inv s" and st: "task_step work j r s = Some s'"
  shows "\<exists>ph' evs.
    j < length (tasks s) \<and> active (tasks s ! j) \<and> (is_settled ph' \<or> active ph') \<and>
    processChunkWithRetries_step (maxRetriesPerChunk (config (processor s)))
       (abortController (processor s) = Some True)
       (case tasks s ! j of Running a \<Rightarrow> attempt_failure work j a (chunks s ! j) | _ \<Rightarrow> None)
       (tasks s ! j) = Some (ph', evs) \<and>
    length (tasks s') = length (tasks s) \<and> tasks s' ! j = ph' \<and>
    (\<forall>k < length (tasks s). k \<noteq> j \<longrightarrow>
       tasks s' ! k = tasks s ! k \<or> (tasks s ! k = Waiting \<and> tasks s' ! k = Granted)) \<and>
    (semaphore s' = semaphore s \<or>
     is_settled ph' \<and>
       (queue (semaphore s) = [] \<and> queue (semaphore s') = [] \<or>
        (\<exists>w. queue (semaphore s) = w # queue (semaphore s') \<and>
              permits (semaphore s') = permits (semaphore s) \<and>
              w < length (tasks s) \<and> tasks s' ! w = Granted))) \<and>
    trace s' = trace s @ map (Pair j) evs \<and> main s' = main s \<and> chunks s' = chunks s \<and>
    loop_i s' = loop_i s \<and>
    config (processor s') = config (processor s) \<and>
    abortController (processor s') = abortController (processor s) \<and>
    allRejected s' =
      (case ph' of
         Rejected e \<Rightarrow> (if main s = AwaitAll \<and> allRejected s = None then Some e else allRejected s)
       | _ \<Rightarrow> allRejected s)"
proof -
  from task_step_shape[OF st] obtain ph' evs where j: "j < length (tasks s)"
    and ps: "processChunkWithRetries_step (maxRetriesPerChunk (config (processor s)))
       (abortController (processor s) = Some True)
       (case tasks s ! j of Running a \<Rightarrow> attempt_failure work j a (chunks s ! j) | _ \<Rightarrow> None)
       (tasks s ! j) = Some (ph', evs)"
    and a: "is_settled ph' \<longrightarrow> s' = finish_task j ph' (s\<lparr> trace := trace s @ map (Pair j) evs \<rparr>)"
    and b: "ph' = Sleeping \<longrightarrow>
       s' = (case processNodes (chunks s ! j) of
               Inr pc \<Rightarrow> processChunk_commit r j pc (s\<lparr> trace := trace s @ map (Pair j) evs \<rparr>)
             | Inl e \<Rightarrow> s\<lparr> trace := trace s @ map (Pair j) evs \<rparr>)\<lparr> tasks := (tasks s)[j := Sleeping] \<rparr>"
    and c: "\<not> is_settled ph' \<and> ph' \<noteq> Sleeping \<longrightarrow>
       s' = s\<lparr> trace := trace s @ map (Pair j) evs, tasks := (tasks s)[j := ph'] \<rparr>"
    by blast
  let ?s1 = "s\<lparr> trace := trace s @ map (Pair j) evs \<rparr>"
  from step_result_phase[OF ps] have act: "active (tasks s ! j)" and ph': "is_settled ph' \<or> active ph'"
    by auto
  have inv1: "pipe_inv ?s1" using inv by (simp add: trace_inv)
  consider (settled) "is_settled ph'" | (sleeping) "ph' = Sleeping"
    | (other) "\<not> is_settled ph'" "ph' \<noteq> Sleeping"
    by blast
  then have rest: "length (tasks s') = length (tasks s) \<and> tasks s' ! j = ph' \<and>
    (\<forall>k < length (tasks s). k \<noteq> j \<longrightarrow>
       tasks s' ! k = tasks s ! k \<or> (tasks s ! k = Waiting \<and> tasks s' ! k = Granted)) \<and>
    (semaphore s' = semaphore s \<or>
     is_settled ph' \<and>
       (queue (semaphore s) = [] \<and> queue (semaphore s') = [] \<or>
        (\<exists>w. queue (semaphore s) = w # queue (semaphore s') \<and>
              permits (semaphore s') = permits (semaphore s) \<and>
              w < length (tasks s) \<and> tasks s' ! w = Granted))) \<and>
    trace s' = trace s @ map (Pair j) evs \<and> main s' = main s \<and> chunks s' = chunks s \<and>
    loop_i s' = loop_i s \<and>
    config (processor s') = config (processor s) \<and>
    abortController (processor s') = abortController (processor s) \<and>
    allRejected s' =
      (case ph' of
         Rejected e \<Rightarrow> (if main s = AwaitAll \<and> allRejected s = None then Some e else allRejected s)
       | _ \<Rightarrow> allRejected s)"
  proof cases
    case settled
    with a have s': "s' = finish_task j ph' ?s1" by simp
    from finish_task_tasks[OF inv1, of j ph'] j act
    have ft: "length (tasks s') = length (tasks s) \<and> tasks s' ! j = ph' \<and>
         (\<forall>k < length (tasks s). k \<noteq> j \<longrightarrow>
            tasks s' ! k = tasks s ! k \<or> (tasks s ! k = Waiting \<and> tasks s' ! k = Granted)) \<and>
         (queue (semaphore s) = [] \<and> queue (semaphore s') = [] \<or>
          (\<exists>w. queue (semaphore s) = w # queue (semaphore s') \<and>
                permits (semaphore s') = permits (semaphore s) \<and>
                w < length (tasks s) \<and> tasks s' ! w = Granted))"
      unfolding s' by simp
    have fields: "trace s' = trace s @ map (Pair j) evs" "main s' = main s" "chunks s' = chunks s"
      "loop_i s' = loop_i s" "processor s' = processor s"
      unfolding s' by (simp_all add: finish_task_fields)
    have ar: "allRejected s' =
        (case ph' of
           Rejected e \<Rightarrow> (if main s = AwaitAll \<and> allRejected s = None then Some e else allRejected s)
         | _ \<Rightarrow> allRejected s)"
      unfolding s' by (cases ph') (simp_all add: finish_task_fields)
    from ft fields ar settled show ?thesis by simp
  next
    case sleeping
    show ?thesis
    proof (cases "processNodes (chunks s ! j)")
      case (Inl e)
      with b sleeping have "s' = ?s1\<lparr> tasks := (tasks s)[j := Sleeping] \<rparr>" by simp
      then show ?thesis using sleeping j by simp
    next
      case (Inr pc)
      with b sleeping have "s' = (processChunk_commit r j pc ?s1)\<lparr> tasks := (tasks s)[j := Sleeping] \<rparr>"
        by simp
      then show ?thesis using sleeping j by (simp add: commit_fields)
    qed
  next
    case other
    with c have "s' = ?s1\<lparr> tasks := (tasks s)[j := ph'] \<rparr>" by simp
    then show ?thesis using other j by (cases ph') simp_all
  qed
  from j act ph' ps rest show ?thesis by blast
qed

lemma chunk_trace_append:
  "trace s' = trace s @ map (Pair j) evs \<Longrightarrow>
   chunk_trace k s' = chunk_trace k s @ (if k = j then evs else [])"
  by (auto simp: chunk_trace_def filter_map comp_def)

lemma task_step_retry:
  assumes inv: "pipe_inv s" and ri: "retry_inv work s" and st: "task_step work j r s = Some s'"
  shows "retry_inv work s'"
proof -
  let ?m = "maxRetriesPerChunk (config (processor s))"
  from ri have nab: "abortController (processor s) \<noteq> Some True"
    and thr: "\<forall>e. main s = Settled (Thrown e) \<longrightarrow> (\<exists>k < length (tasks s). tasks s ! k = Rejected e)"
    and tok: "\<forall>k < length (tasks s).
        trace_ok ?m (\<lambda>a. attempt_failure work k a (chunks s ! k)) (tasks s ! k) (chunk_trace k s)"
    unfolding retry_inv_def by blast+
  from task_step_effect[OF inv st] obtain ph' evs where j: "j < length (tasks s)"
    and act: "active (tasks s ! j)"
    and ps: "processChunkWithRetries_step ?m (abortController (processor s) = Some True)
       (case tasks s ! j of Running a \<Rightarrow> attempt_failure work j a (chunks s ! j) | _ \<Rightarrow> None)
       (tasks s ! j) = Some (ph', evs)"
    and len: "length (tasks s') = length (tasks s)" and atj: "tasks s' ! j = ph'"
    and others: "\<forall>k < length (tasks s). k \<noteq> j \<longrightarrow>
       tasks s' ! k = tasks s ! k \<or> (tasks s ! k = Waiting \<and> tasks s' ! k = Granted)"
    and tr: "trace s' = trace s @ map (Pair j) evs" and mn: "main s' = main s"
    and ch: "chunks s' = chunks s"
    and cf: "config (processor s') = config (processor s)"
    and abc: "abortController (processor s') = abortController (processor s)"
    by blast
  from ps nab have ps': "processChunkWithRetries_step ?m False
       (case tasks s ! j of Running a \<Rightarrow> attempt_failure work j a (chunks s ! j) | _ \<Rightarrow> None)
       (tasks s ! j) = Some (ph', evs)"
    by simp
  have c1: "abortController (processor s') \<noteq> Some True" using abc nab by simp
  have c2: "\<forall>e. main s' = Settled (Thrown e) \<longrightarrow> (\<exists>k < length (tasks s'). tasks s' ! k = Rejected e)"
  proof (intro allI impI)
    fix e assume "main s' = Settled (Thrown e)"
    then have "main s = Settled (Thrown e)" using mn by simp
    with thr obtain k where k: "k < length (tasks s)" "tasks s ! k = Rejected e" by blast
    with act have "k \<noteq> j" by auto
    with others k have "tasks s' ! k = Rejected e" by auto
    with k len show "\<exists>k < length (tasks s'). tasks s' ! k = Rejected e" by auto
  qed
  have c3: "\<forall>k < length (tasks s').
        trace_ok ?m (\<lambda>a. attempt_failure work k a (chunks s' ! k)) (tasks s' ! k) (chunk_trace k s')"
  proof (intro allI impI)
    fix k assume k: "k < length (tasks s')"
    show "trace_ok ?m (\<lambda>a. attempt_failure work k a (chunks s' ! k)) (tasks s' ! k) (chunk_trace k s')"
    proof (cases "k = j")
      case True
      from tok j have "trace_ok ?m (\<lambda>a. attempt_failure work j a (chunks s ! j)) (tasks s ! j) (chunk_trace j s)"
        by simp
      from retry_step_trace_ok[where fails = "\<lambda>a. attempt_failure work j a (chunks s ! j)", OF ps' this]
      show ?thesis using True atj ch chunk_trace_append[OF tr, of j] by simp
    next
      case False
      from tok k len have t: "trace_ok ?m (\<lambda>a. attempt_failure work k a (chunks s ! k)) (tasks s ! k) (chunk_trace k s)"
        by simp
      from others k len False consider "tasks s' ! k = tasks s ! k"
        | "tasks s ! k = Waiting" "tasks s' ! k = Granted"
        by auto
      then show ?thesis
      proof cases
        case 1
        with t False ch chunk_trace_append[OF tr, of k] show ?thesis by simp
      next
        case 2
        with t False ch chunk_trace_append[OF tr, of k] show ?thesis by simp
      qed
    qed
  qed
  from c1 c2 c3 cf show ?thesis unfolding retry_inv_def by simp
qed

lemma chunk_trace_fields [simp]:
  "chunk_trace k (s\<lparr> semaphore := sm, tasks := ts, loop_i := i \<rparr>) = chunk_trace k s"
  "chunk_trace k (s\<lparr> main := mn, allRejected := ar \<rparr>) = chunk_trace k s"
  "chunk_trace k (settle out s) = chunk_trace k s"
  by (simp_all add: chunk_trace_def settle_def)

lemma main_block_retry:
  assumes "pipe_inv s" "main s = InLoop" "retry_inv work s"
  shows "retry_inv work (main_block s)"
proof -
  have "retry_inv work s \<longrightarrow> retry_inv work (main_block s)"
  proof (rule main_block_chain[where R = "\<lambda>a b. retry_inv work a \<longrightarrow> retry_inv work b", OF assms(1,2)])
    fix s :: pipeline and sem' granted
    assume inv: "pipe_inv s" and i: "loop_i s < length (chunks s)"
    let ?s1 = "s\<lparr> semaphore := sem',
                    tasks := (tasks s)[loop_i s := (if granted then Granted else Waiting)],
                    loop_i := loop_i s + 1 \<rparr>"
    from inv i have ti: "tasks s ! loop_i s = Unsubmitted" "loop_i s < length (tasks s)"
      by (auto simp: pipe_inv_def)
    show "retry_inv work s \<longrightarrow> retry_inv work ?s1"
    proof
      assume ri: "retry_inv work s"
      then have thr: "\<forall>e. main s = Settled (Thrown e) \<longrightarrow> (\<exists>k < length (tasks s). tasks s ! k = Rejected e)"
        and tok: "\<forall>k < length (tasks s).
          trace_ok (maxRetriesPerChunk (config (processor s)))
            (\<lambda>a. attempt_failure work k a (chunks s ! k)) (tasks s ! k) (chunk_trace k s)"
        and nab: "abortController (processor s) \<noteq> Some True"
        unfolding retry_inv_def by blast+
      have c2: "\<forall>e. main ?s1 = Settled (Thrown e) \<longrightarrow> (\<exists>k < length (tasks ?s1). tasks ?s1 ! k = Rejected e)"
      proof (intro allI impI)
        fix e assume "main ?s1 = Settled (Thrown e)"
        then have "main s = Settled (Thrown e)" by simp
        with thr obtain k where k: "k < length (tasks s)" "tasks s ! k = Rejected e" by blast
        with ti have "k \<noteq> loop_i s" by auto
        with k show "\<exists>k < length (tasks ?s1). tasks ?s1 ! k = Rejected e" by auto
      qed
      have c3: "\<forall>k < length (tasks ?s1).
          trace_ok (maxRetriesPerChunk (config (processor ?s1)))
            (\<lambda>a. attempt_failure work k a (chunks ?s1 ! k)) (tasks ?s1 ! k) (chunk_trace k ?s1)"
      proof (intro allI impI)
        fix k assume k: "k < length (tasks ?s1)"
        with tok have t: "trace_ok (maxRetriesPerChunk (config (processor s)))
            (\<lambda>a. attempt_failure work k a (chunks s ! k)) (tasks s ! k) (chunk_trace k s)"
          by simp
        show "trace_ok (maxRetriesPerChunk (config (processor ?s1)))
            (\<lambda>a. attempt_failure work k a (chunks ?s1 ! k)) (tasks ?s1 ! k) (chunk_trace k ?s1)"
        proof (cases "k = loop_i s")
          case True
          with t ti show ?thesis by simp
        next
          case False
          with t show ?thesis by simp
        qed
      qed
      from nab c2 c3 show "retry_inv work ?s1" unfolding retry_inv_def by simp
    qed
  next
    fix s :: pipeline
    assume "abortController (processor s) = Some True"
    then show "retry_inv work s \<longrightarrow> retry_inv work (settle (Thrown AbortError) s)"
      by (simp add: retry_inv_def)
  next
    fix s :: pipeline
    show "retry_inv work s \<longrightarrow> retry_inv work (s\<lparr> main := AwaitAll, allRejected := first_rejected (tasks s) \<rparr>)"
      by (simp add: retry_inv_def)
  qed simp
  with assms(3) show ?thesis by simp
qed

lemma main_step_retry:
  assumes inv: "pipe_inv s" and ri: "retry_inv work s" and st: "main_step s = Some s'"
  shows "retry_inv work s'"
proof (cases "main s")
  case InLoop
  with st have "s' = main_block s" by (simp add: main_step_def)
  with main_block_retry[OF inv InLoop ri] show ?thesis by simp
next
  case AwaitAll
  show ?thesis
  proof (cases "allRejected s")
    case None
    with st AwaitAll have "s' = settle (Returned (processedData s)) s"
      by (auto simp: main_step_def split: if_splits)
    with ri show ?thesis by (simp add: retry_inv_def) (simp add: settle_def)
  next
    case (Some e)
    with inv have r: "\<exists>k < length (tasks s). tasks s ! k = Rejected e"
      by (auto simp: pipe_inv_def)
    from st AwaitAll Some have "s' = settle (Thrown e) s" by (simp add: main_step_def)
    with ri r show ?thesis by (simp add: retry_inv_def) (simp add: settle_def)
  qed
next
  case (Settled out)
  with st show ?thesis by (simp add: main_step_def)
qed

lemma first_rejected_None:
  assumes "first_rejected ts = None"
  shows "\<forall>k < length ts. \<forall>e. ts ! k \<noteq> Rejected e"
proof (intro allI impI)
  fix k e assume k: "k < length ts"
  let ?f = "\<lambda>ph. case ph of Rejected e \<Rightarrow> Some e | _ \<Rightarrow> None"
  from assms have "List.map_filter ?f ts = []"
    by (cases "List.map_filter ?f ts") (simp_all add: first_rejected_def)
  then have "\<forall>ph \<in> set ts. ?f ph = None"
    by (auto simp: List.map_filter_def filter_empty_conv)
  with k have "?f (ts ! k) = None" by simp
  then show "ts ! k \<noteq> Rejected e" by auto
qed

lemma task_step_live:
  assumes inv: "pipe_inv s" and li: "live_inv s" and st: "task_step work j r s = Some s'"
  shows "live_inv s'"
proof -
  from li have qa: "queue (semaphore s) \<noteq> [] \<longrightarrow> permits (semaphore s) \<le> 0"
    and wq: "\<forall>k < length (tasks s). tasks s ! k = Waiting \<longrightarrow> k \<in> set (queue (semaphore s))"
    and sub: "\<forall>k < length (tasks s). k < loop_i s \<longrightarrow> tasks s ! k \<noteq> Unsubmitted"
    and aw: "main s = AwaitAll \<longrightarrow> length (chunks s) \<le> loop_i s"
    and nr: "main s = AwaitAll \<and> allRejected s = None \<longrightarrow>
        (\<forall>k < length (tasks s). \<forall>e. tasks s ! k \<noteq> Rejected e)"
    unfolding live_inv_def by blast+
  from task_step_effect[OF inv st] obtain ph' evs where j: "j < length (tasks s)"
    and act: "active (tasks s ! j)" and ph': "is_settled ph' \<or> active ph'"
    and len: "length (tasks s') = length (tasks s)" and atj: "tasks s' ! j = ph'"
    and others: "\<forall>k < length (tasks s). k \<noteq> j \<longrightarrow>
       tasks s' ! k = tasks s ! k \<or> (tasks s ! k = Waiting \<and> tasks s' ! k = Granted)"
    and sem: "semaphore s' = semaphore s \<or>
       is_settled ph' \<and>
       (queue (semaphore s) = [] \<and> queue (semaphore s') = [] \<or>
        (\<exists>w. queue (semaphore s) = w # queue (semaphore s') \<and>
              permits (semaphore s') = permits (semaphore s) \<and>
              w < length (tasks s) \<and> tasks s' ! w = Granted))"
    and mn: "main s' = main s" and ch: "chunks s' = chunks s" and lp: "loop_i s' = loop_i s"
    and ar: "allRejected s' =
      (case ph' of
         Rejected e \<Rightarrow> (if main s = AwaitAll \<and> allRejected s = None then Some e else allRejected s)
       | _ \<Rightarrow> allRejected s)"
    by blast
  have c1: "queue (semaphore s') \<noteq> [] \<longrightarrow> permits (semaphore s') \<le> 0"
    using sem qa by auto
  have c2: "\<forall>k < length (tasks s'). tasks s' ! k = Waiting \<longrightarrow> k \<in> set (queue (semaphore s'))"
  proof (intro allI impI)
    fix k assume k: "k < length (tasks s')" and w: "tasks s' ! k = Waiting"
    from w atj ph' have kj: "k \<noteq> j" by auto
    with others k len w have w0: "tasks s ! k = Waiting" by auto
    with wq k len have kq: "k \<in> set (queue (semaphore s))" by simp
    from sem show "k \<in> set (queue (semaphore s'))"
    proof
      assume "semaphore s' = semaphore s"
      with kq show ?thesis by simp
    next
      assume "is_settled ph' \<and>
       (queue (semaphore s) = [] \<and> queue (semaphore s') = [] \<or>
        (\<exists>w. queue (semaphore s) = w # queue (semaphore s') \<and>
              permits (semaphore s') = permits (semaphore s) \<and>
              w < length (tasks s) \<and> tasks s' ! w = Granted))"
      with kq obtain w' where w': "queue (semaphore s) = w' # queue (semaphore s')"
          "tasks s' ! w' = Granted"
        by auto
      with w have "k \<noteq> w'" by auto
      with kq w'(1) show ?thesis by auto
    qed
  qed
  have c3: "\<forall>k < length (tasks s'). k < loop_i s' \<longrightarrow> tasks s' ! k \<noteq> Unsubmitted"
  proof (intro allI impI)
    fix k assume k: "k < length (tasks s')" "k < loop_i s'"
    show "tasks s' ! k \<noteq> Unsubmitted"
    proof (cases "k = j")
      case True
      with atj ph' show ?thesis by auto
    next
      case False
      with others k len sub lp show ?thesis by auto
    qed
  qed
  have c4: "main s' = AwaitAll \<longrightarrow> length (chunks s') \<le> loop_i s'"
    using aw mn ch lp by simp
  have c5: "main s' = AwaitAll \<and> allRejected s' = None \<longrightarrow>
        (\<forall>k < length (tasks s'). \<forall>e. tasks s' ! k \<noteq> Rejected e)"
  proof (intro allI impI)
    fix k e assume h: "main s' = AwaitAll \<and> allRejected s' = None" and k: "k < length (tasks s')"
    have nrej: "\<And>e. ph' \<noteq> Rejected e"
    proof
      fix e assume "ph' = Rejected e"
      with ar h mn show False by (auto split: if_splits)
    qed
    then have "allRejected s = None" using ar h by (cases ph') auto
    with h mn nr have old: "\<forall>k < length (tasks s). \<forall>e. tasks s ! k \<noteq> Rejected e" by simp
    show "tasks s' ! k \<noteq> Rejected e"
    proof (cases "k = j")
      case True
      with atj nrej show ?thesis by simp
    next
      case False
      with others k len old show ?thesis by auto
    qed
  qed
  from c1 c2 c3 c4 c5 show ?thesis unfolding live_inv_def by blast
qed

lemma main_block_live:
  assumes "pipe_inv s" "main s = InLoop" "live_inv s"
  shows "live_inv (main_block s)"
proof -
  have "live_inv s \<longrightarrow> live_inv (main_block s)"
  proof (rule main_block_chain[where R = "\<lambda>a b. live_inv a \<longrightarrow> live_inv b", OF assms(1,2)])
    fix s :: pipeline and sem' granted
    assume inv: "pipe_inv s" and loop: "main s = InLoop" and i: "loop_i s < length (chunks s)"
      and acq: "acquire (loop_i s) (semaphore s) = (sem', granted)"
    let ?s1 = "s\<lparr> semaphore := sem',
                    tasks := (tasks s)[loop_i s := (if granted then Granted else Waiting)],
                    loop_i := loop_i s + 1 \<rparr>"
    from inv i have ti: "loop_i s < length (tasks s)" by (auto simp: pipe_inv_def)
    show "live_inv s \<longrightarrow> live_inv ?s1"
    proof
      assume li: "live_inv s"
      then have qa: "queue (semaphore s) \<noteq> [] \<longrightarrow> permits (semaphore s) \<le> 0"
        and wq: "\<forall>k < length (tasks s). tasks s ! k = Waiting \<longrightarrow> k \<in> set (queue (semaphore s))"
        and sub: "\<forall>k < length (tasks s). k < loop_i s \<longrightarrow> tasks s ! k \<noteq> Unsubmitted"
        unfolding live_inv_def by blast+
      have q': "queue sem' = (if granted then queue (semaphore s) else queue (semaphore s) @ [loop_i s])"
        and p': "permits sem' = (if granted then permits (semaphore s) - 1 else permits (semaphore s))"
        and g: "granted \<longleftrightarrow> permits (semaphore s) > 0"
        using acq by (auto simp: acquire_def split: if_splits)
      have c1: "queue sem' \<noteq> [] \<longrightarrow> permits sem' \<le> 0" using q' p' g qa by auto
      have c2: "\<forall>k < length (tasks ?s1). tasks ?s1 ! k = Waiting \<longrightarrow> k \<in> set (queue sem')"
      proof (intro allI impI)
        fix k assume k: "k < length (tasks ?s1)" and w: "tasks ?s1 ! k = Waiting"
        show "k \<in> set (queue sem')"
        proof (cases "k = loop_i s")
          case True
          with w ti have "\<not> granted" by (auto split: if_splits)
          with q' True show ?thesis by simp
        next
          case False
          with w k have "tasks s ! k = Waiting" by simp
          with wq k have "k \<in> set (queue (semaphore s))" by simp
          with q' show ?thesis by simp
        qed
      qed
      have c3: "\<forall>k < length (tasks ?s1). k < loop_i ?s1 \<longrightarrow> tasks ?s1 ! k \<noteq> Unsubmitted"
      proof (intro allI impI)
        fix k assume k: "k < length (tasks ?s1)" "k < loop_i ?s1"
        show "tasks ?s1 ! k \<noteq> Unsubmitted"
        proof (cases "k = loop_i s")
          case True
          with ti show ?thesis by simp
        next
          case False
          with k sub show ?thesis by simp
        qed
      qed
      from c1 c2 c3 loop show "live_inv ?s1" unfolding live_inv_def by simp
    qed
  next
    fix s :: pipeline
    show "live_inv s \<longrightarrow> live_inv (settle (Thrown AbortError) s)"
      by (simp add: live_inv_def settle_def)
  next
    fix s :: pipeline
    assume "\<not> loop_i s < length (chunks s)"
    then show "live_inv s \<longrightarrow> live_inv (s\<lparr> main := AwaitAll, allRejected := first_rejected (tasks s) \<rparr>)"
      using first_rejected_None[of "tasks s"] by (simp add: live_inv_def)
  qed simp
  with assms(3) show ?thesis by simp
qed

lemma main_step_live:
  assumes inv: "pipe_inv s" and li: "live_inv s" and st: "main_step s = Some s'"
  shows "live_inv s'"
proof (cases "main s")
  case InLoop
  with st have "s' = main_block s" by (simp add: main_step_def)
  with main_block_live[OF inv InLoop li] show ?thesis by simp
next
  case AwaitAll
  with st obtain out where "s' = settle out s"
    by (auto simp: main_step_def split: option.splits if_splits)
  with li show ?thesis by (simp add: live_inv_def settle_def)
next
  case (Settled out)
  with st show ?thesis by (simp add: main_step_def)
qed

lemma sum_list_pointwise:
  assumes "length xs = length ys" "\<forall>k < length xs. (f (xs ! k) :: nat) \<le> f (ys ! k)"
  shows "sum_list (map f xs) \<le> sum_list (map f ys)"
  using assms
proof (induction xs ys rule: list_induct2)
  case Nil
  then show ?case by simp
next
  case (Cons x xs y ys)
  from Cons.prems have "f x \<le> f y" by auto
  moreover from Cons.prems have "\<forall>k < length xs. f (xs ! k) \<le> f (ys ! k)" by auto
  ultimately show ?case using Cons.IH by simp
qed

lemma sum_list_pointwise_strict:
  assumes "length xs = length ys" "\<forall>k < length xs. (f (xs ! k) :: nat) \<le> f (ys ! k)"
    and "j < length xs" "f (xs ! j) < f (ys ! j)"
  shows "sum_list (map f xs) < sum_list (map f ys)"
proof -
  have "sum_list (map f (ys[j := xs ! j])) < sum_list (map f ys)"
    using sum_list_task_rank_update[of j ys f "xs ! j"] assms by simp
  moreover have "sum_list (map f xs) \<le> sum_list (map f (ys[j := xs ! j]))"
  proof (rule sum_list_pointwise)
    show "length xs = length (ys[j := xs ! j])" using assms(1) by simp
    show "\<forall>k < length xs. f (xs ! k) \<le> f (ys[j := xs ! j] ! k)"
    proof (intro allI impI)
      fix k assume k: "k < length xs"
      show "f (xs ! k) \<le> f (ys[j := xs ! j] ! k)"
      proof (cases "k = j")
        case True
        with k assms(1) show ?thesis by simp
      next
        case False
        with k assms(1,2) show ?thesis by simp
      qed
    qed
  qed
  ultimately show ?thesis by simp
qed

lemma task_rank_phase_rank:
  "is_settled ph \<or> active ph \<Longrightarrow> task_rank m ph = phase_rank m ph"
  by (cases ph) auto

lemma task_step_rank:
  assumes inv: "pipe_inv s" and st: "task_step work j r s = Some s'"
  shows "run_rank s' < run_rank s"
proof -
  let ?m = "maxRetriesPerChunk (config (processor s))"
  from task_step_effect[OF inv st] obtain ph' evs where j: "j < length (tasks s)"
    and act: "active (tasks s ! j)" and ph': "is_settled ph' \<or> active ph'"
    and ps: "processChunkWithRetries_step ?m (abortController (processor s) = Some True)
       (case tasks s ! j of Running a \<Rightarrow> attempt_failure work j a (chunks s ! j) | _ \<Rightarrow> None)
       (tasks s ! j) = Some (ph', evs)"
    and len: "length (tasks s') = length (tasks s)" and atj: "tasks s' ! j = ph'"
    and others: "\<forall>k < length (tasks s). k \<noteq> j \<longrightarrow>
       tasks s' ! k = tasks s ! k \<or> (tasks s ! k = Waiting \<and> tasks s' ! k = Granted)"
    and mn: "main s' = main s"
    and cf: "config (processor s') = config (processor s)"
    by blast
  from processChunkWithRetries_step_rank[OF ps] have "phase_rank ?m ph' < phase_rank ?m (tasks s ! j)" .
  then have strict: "task_rank ?m (tasks s' ! j) < task_rank ?m (tasks s ! j)"
    using task_rank_phase_rank[of ph' ?m] task_rank_phase_rank[of "tasks s ! j" ?m] ph' act atj by simp
  have pw: "\<forall>k < length (tasks s'). task_rank ?m (tasks s' ! k) \<le> task_rank ?m (tasks s ! k)"
  proof (intro allI impI)
    fix k assume k: "k < length (tasks s')"
    show "task_rank ?m (tasks s' ! k) \<le> task_rank ?m (tasks s ! k)"
    proof (cases "k = j")
      case True
      with strict show ?thesis by simp
    next
      case False
      with others k len show ?thesis by auto
    qed
  qed
  from sum_list_pointwise_strict[OF len pw] j len strict
  have "sum_list (map (task_rank ?m) (tasks s')) < sum_list (map (task_rank ?m) (tasks s))" by simp
  then show ?thesis using mn cf by (simp add: run_rank_def)
qed

lemma main_block_rank:
  assumes "pipe_inv s" "main s = InLoop"
  shows "run_rank (main_block s) < run_rank s"
proof (rule main_block_chain[where R = "\<lambda>a b. run_rank b < run_rank a", OF assms])
  fix s :: pipeline and sem' granted
  assume inv: "pipe_inv s" and i: "loop_i s < length (chunks s)"
  from inv i have ti: "loop_i s < length (tasks s)" "tasks s ! loop_i s = Unsubmitted"
    by (auto simp: pipe_inv_def)
  let ?m = "maxRetriesPerChunk (config (processor s))"
  have "task_rank ?m (if granted then Granted else Waiting) < task_rank ?m (tasks s ! loop_i s)"
    using ti by simp
  from sum_list_task_rank_update[OF ti(1), of "task_rank ?m", OF this]
  show "run_rank (s\<lparr> semaphore := sem',
                      tasks := (tasks s)[loop_i s := (if granted then Granted else Waiting)],
                      loop_i := loop_i s + 1 \<rparr>) < run_rank s"
    by (simp add: run_rank_def)
next
  fix s :: pipeline
  assume "main s = InLoop"
  then show "run_rank (settle (Thrown AbortError) s) < run_rank s"
    by (simp add: run_rank_def settle_def)
next
  fix s :: pipeline
  assume "main s = InLoop"
  then show "run_rank (s\<lparr> main := AwaitAll, allRejected := first_rejected (tasks s) \<rparr>) < run_rank s"
    by (simp add: run_rank_def)
qed simp

lemma main_step_rank:
  assumes inv: "pipe_inv s" and st: "main_step s = Some s'"
  shows "run_rank s' < run_rank s"
proof (cases "main s")
  case InLoop
  with st have "s' = main_block s" by (simp add: main_step_def)
  with main_block_rank[OF inv InLoop] show ?thesis by simp
next
  case AwaitAll
  with st obtain out where "s' = settle out s"
    by (auto simp: main_step_def split: option.splits if_splits)
  with AwaitAll show ?thesis by (simp add: run_rank_def settle_def)
next
  case (Settled out)
  with st show ?thesis by (simp add: main_step_def)
qed

text \<open>The invariants of a run in which \<open>abort()\<close> is not called.\<close>

lemma step_no_abort:
  assumes inv: "pipe_inv s" and st: "step work ev s = Some s'" and na: "ev \<noteq> AbortCall"
  shows "run_rank s' < run_rank s"
    and "live_inv s \<Longrightarrow> live_inv s'"
    and "retry_inv work s \<Longrightarrow> retry_inv work s'"
    and "chunks s' = chunks s"
proof -
  show "run_rank s' < run_rank s"
  proof (cases ev)
    case Main
    with st show ?thesis using main_step_rank[OF inv, of s'] by simp
  next
    case (Task j r)
    with st show ?thesis using task_step_rank[OF inv, of work j r s'] by simp
  next
    case AbortCall
    with na show ?thesis by simp
  qed
  show "live_inv s'" if "live_inv s"
  proof (cases ev)
    case Main
    with st that show ?thesis using main_step_live[OF inv, of s'] by simp
  next
    case (Task j r)
    with st that show ?thesis using task_step_live[OF inv, of work j r s'] by simp
  next
    case AbortCall
    with na show ?thesis by simp
  qed
  show "retry_inv work s'" if "retry_inv work s"
  proof (cases ev)
    case Main
    with st that show ?thesis using main_step_retry[OF inv, of work s'] by simp
  next
    case (Task j r)
    with st that show ?thesis using task_step_retry[OF inv, of work j r s'] by simp
  next
    case AbortCall
    with na show ?thesis by simp
  qed
  show "chunks s' = chunks s"
  proof (cases ev)
    case Main
    show ?thesis
    proof (cases "main s")
      case InLoop
      have "chunks (main_block s) = chunks s"
        by (rule main_block_chain[where R = "\<lambda>a b. chunks b = chunks a", OF inv InLoop])
           (simp_all add: settle_def)
      with st Main InLoop show ?thesis by (simp add: main_step_def)
    next
      case AwaitAll
      with st Main show ?thesis
        by (auto simp: main_step_def settle_def split: option.splits if_splits)
    next
      case (Settled out)
      with st Main show ?thesis by (simp add: main_step_def)
    qed
  next
    case (Task j r)
    with st have "task_step work j r s = Some s'" by simp
    from task_step_effect[OF inv this] show ?thesis by blast
  next
    case AbortCall
    with na show ?thesis by simp
  qed
qed

lemma run_no_abort:
  assumes "pipe_inv s" "run work es s = Some s'" "AbortCall \<notin> set es"
  shows "length es + run_rank s' \<le> run_rank s"
    and "live_inv s \<Longrightarrow> live_inv s'"
    and "retry_inv work s \<Longrightarrow> retry_inv work s'"
    and "chunks s' = chunks s"
proof -
  have "length es + run_rank s' \<le> run_rank s \<and> (live_inv s \<longrightarrow> live_inv s') \<and>
        (retry_inv work s \<longrightarrow> retry_inv work s') \<and> chunks s' = chunks s"
    using assms
  proof (induction es arbitrary: s)
    case Nil
    then show ?case by simp
  next
    case (Cons ev es)
    from Cons.prems(2) obtain s1 where s1: "step work ev s = Some s1" "run work es s1 = Some s'"
      by (auto split: option.splits)
    from Cons.prems(3) have na: "ev \<noteq> AbortCall" "AbortCall \<notin> set es" by auto
    from step_inv[OF Cons.prems(1) s1(1)] have inv1: "pipe_inv s1" .
    from step_no_abort[OF Cons.prems(1) s1(1) na(1)]
    have a: "run_rank s1 < run_rank s" "live_inv s \<Longrightarrow> live_inv s1"
      "retry_inv work s \<Longrightarrow> retry_inv work s1" "chunks s1 = chunks s"
      by blast+
    from Cons.IH[OF inv1 s1(2) na(2)]
    have b: "length es + run_rank s' \<le> run_rank s1" "live_inv s1 \<longrightarrow> live_inv s'"
      "retry_inv work s1 \<longrightarrow> retry_inv work s'" "chunks s' = chunks s1"
      by blast+
    from a b show ?case by auto
  qed
  then show "length es + run_rank s' \<le> run_rank s"
    and "live_inv s \<Longrightarrow> live_inv s'"
    and "retry_inv work s \<Longrightarrow> retry_inv work s'"
    and "chunks s' = chunks s"
    by blast+
qed

lemma start_state:
  assumes "processLargeFigmaFile this document onProgress now = Some s"
  shows "\<exists>s0. s = main_block s0 \<and> pipe_inv s0 \<and> main s0 = InLoop \<and> loop_i s0 = 0 \<and>
     tasks s0 = replicate (length (chunks s0)) Unsubmitted \<and> queue (semaphore s0) = [] \<and>
     allRejected s0 = None \<and> trace s0 = [] \<and> config (processor s0) = config this \<and>
     abortController (processor s0) = Some False"
proof -
  from assms obtain cs where cs: "createChunks (flattenDocumentTree document 0) (chunkSize (config this)) = Some cs"
    by (auto simp: processLargeFigmaFile_def Let_def split: option.splits)
  define s0 where "s0 =
    \<lparr> processor = this\<lparr> progressCallback := onProgress, abortController := Some False,
                        memoryCheckInterval := True \<rparr>,
      chunks = cs,
      processedData =
        \<lparr> originalData = document, processedNodes = [],
          stats = \<lparr> st_totalNodes = int (length (flattenDocumentTree document 0)), st_processedNodes = 0,
                    startTime = now \<rparr> \<rparr>,
      semaphore = Semaphore_constructor (maxConcurrentChunks (config this)),
      loop_i = 0, main = InLoop, tasks = replicate (length cs) Unsubmitted,
      allRejected = None, trace = [] \<rparr>"
  from assms cs have s: "s = main_block s0"
    by (simp add: processLargeFigmaFile_def Let_def s0_def)
  have f: "main s0 = InLoop" "loop_i s0 = 0" "tasks s0 = replicate (length (chunks s0)) Unsubmitted"
    "queue (semaphore s0) = []" "allRejected s0 = None" "trace s0 = []"
    "config (processor s0) = config this" "abortController (processor s0) = Some False"
    by (simp_all add: s0_def Semaphore_constructor_def)
  then have "pipe_inv s0" by (simp add: pipe_inv_def)
  with s f show ?thesis by blast
qed

lemma start_no_abort:
  assumes "processLargeFigmaFile this document onProgress now = Some s"
  shows "retry_inv work s" and "live_inv s"
    and "run_rank s < 2 + length (chunks s) * (2 * nat (maxRetriesPerChunk (config this)) + 6)"
proof -
  from start_state[OF assms] obtain s0 where s: "s = main_block s0" and inv0: "pipe_inv s0"
    and f: "main s0 = InLoop" "loop_i s0 = 0" "tasks s0 = replicate (length (chunks s0)) Unsubmitted"
      "queue (semaphore s0) = []" "allRejected s0 = None" "trace s0 = []"
      "config (processor s0) = config this" "abortController (processor s0) = Some False"
    by blast
  have "retry_inv work s0" using f by (simp add: retry_inv_def chunk_trace_def)
  from main_block_retry[OF inv0 f(1) this] show "retry_inv work s" using s by simp
  have "live_inv s0" using f by (simp add: live_inv_def)
  from main_block_live[OF inv0 f(1) this] show "live_inv s" using s by simp
  have ch: "chunks (main_block s0) = chunks s0"
    by (rule main_block_chain[where R = "\<lambda>a b. chunks b = chunks a", OF inv0 f(1)])
       (simp_all add: settle_def)
  have "run_rank s0 = 2 + length (chunks s0) * (2 * nat (maxRetriesPerChunk (config this)) + 6)"
    using f by (simp add: run_rank_def sum_list_replicate)
  with main_block_rank[OF inv0 f(1)] s ch
  show "run_rank s < 2 + length (chunks s) * (2 * nat (maxRetriesPerChunk (config this)) + 6)"
    by simp
qed

text \<open>A run that has not settled has a task that can be resumed.\<close>

lemma task_step_enabled:
  assumes "k < length (tasks s)" "active (tasks s ! k)"
  shows "task_step work k r s \<noteq> None"
proof -
  from assms(2) have "processChunkWithRetries_step (maxRetriesPerChunk (config (processor s)))
      (abortController (processor s) = Some True)
      (case tasks s ! k of Running a \<Rightarrow> attempt_failure work k a (chunks s ! k) | _ \<Rightarrow> None)
      (tasks s ! k) \<noteq> None"
    by (cases "tasks s ! k") simp_all
  then show ?thesis using assms(1) by (auto simp: task_step_def Let_def split: option.splits)
qed

lemma not_stuck:
  assumes inv: "pipe_inv s" and ok: "permits_ok s" and li: "live_inv s"
    and c: "1 \<le> maxConcurrentChunks (config (processor s))" and ns: "\<not> settled s"
  shows "main_step s \<noteq> None \<or> (\<exists>k < length (tasks s). task_step work k r s \<noteq> None)"
proof (cases "main s")
  case InLoop
  then show ?thesis by (simp add: main_step_def)
next
  case (Settled out)
  with ns show ?thesis by (simp add: settled_def)
next
  case AwaitAll
  from li have qa: "queue (semaphore s) \<noteq> [] \<longrightarrow> permits (semaphore s) \<le> 0"
    and wq: "\<forall>k < length (tasks s). tasks s ! k = Waiting \<longrightarrow> k \<in> set (queue (semaphore s))"
    and sub: "\<forall>k < length (tasks s). k < loop_i s \<longrightarrow> tasks s ! k \<noteq> Unsubmitted"
    and aw: "main s = AwaitAll \<longrightarrow> length (chunks s) \<le> loop_i s"
    and nr: "main s = AwaitAll \<and> allRejected s = None \<longrightarrow>
        (\<forall>k < length (tasks s). \<forall>e. tasks s ! k \<noteq> Rejected e)"
    unfolding live_inv_def by blast+
  from inv have len: "length (tasks s) = length (chunks s)" unfolding pipe_inv_def by blast
  show ?thesis
  proof (cases "main_step s = None")
    case False
    then show ?thesis by simp
  next
    case True
    with AwaitAll have ar: "allRejected s = None" and nf: "\<not> all_fulfilled (tasks s)"
      by (auto simp: main_step_def split: option.splits if_splits)
    from nf obtain k where k: "k < length (tasks s)" "tasks s ! k \<noteq> Fulfilled"
      by (auto simp: all_fulfilled_def list_all_length)
    have "\<exists>k' < length (tasks s). active (tasks s ! k')"
    proof (cases "tasks s ! k")
      case Unsubmitted
      with sub aw AwaitAll len k show ?thesis by auto
    next
      case Waiting
      with wq k have "queue (semaphore s) \<noteq> []" by auto
      with qa have "permits (semaphore s) \<le> 0" by simp
      with ok c have "0 < int (length (filter active (tasks s)))"
        unfolding permits_ok_def by linarith
      then have "filter active (tasks s) \<noteq> []" by auto
      then obtain ph where "ph \<in> set (tasks s)" "active ph"
        by (auto simp: filter_empty_conv)
      then show ?thesis by (auto simp: in_set_conv_nth)
    next
      case Fulfilled
      with k show ?thesis by simp
    next
      case (Rejected e)
      with nr AwaitAll ar k show ?thesis by auto
    qed (use k in auto)
    then obtain k' where "k' < length (tasks s)" "active (tasks s ! k')" by blast
    with task_step_enabled[of k' s work r] show ?thesis by blast
  qed
qed

lemma can_finish:
  assumes "pipe_inv s" "permits_ok s" "live_inv s" "1 \<le> maxConcurrentChunks (config (processor s))"
  shows "\<exists>es s'. AbortCall \<notin> set es \<and> run work es s = Some s' \<and> settled s'"
  using assms
proof (induction "run_rank s" arbitrary: s rule: less_induct)
  case less
  show ?case
  proof (cases "settled s")
    case True
    then have "AbortCall \<notin> set [] \<and> run work [] s = Some s \<and> settled s" by simp
    then show ?thesis by blast
  next
    case False
    from not_stuck[OF less.prems False, of work "at_time 0"]
    obtain ev s1 where ev: "ev \<noteq> AbortCall" "step work ev s = Some s1"
    proof (elim disjE exE conjE)
      assume "main_step s \<noteq> None"
      then obtain s1 where "step work Main s = Some s1" by auto
      then show ?thesis using that[of Main s1] by simp
    next
      fix k assume "task_step work k (at_time 0) s \<noteq> None"
      then obtain s1 where "step work (Task k (at_time 0)) s = Some s1" by auto
      then show ?thesis using that[of "Task k (at_time 0)" s1] by simp
    qed
    from step_no_abort[OF less.prems(1) ev(2,1)]
    have r: "run_rank s1 < run_rank s" and l1: "live_inv s1" using less.prems(3) by blast+
    have i1: "pipe_inv s1" using step_inv[OF less.prems(1) ev(2)] .
    have p1: "permits_ok s1" using step_permits[OF less.prems(1,2) ev(2)] .
    have c1: "1 \<le> maxConcurrentChunks (config (processor s1))"
      using step_processor[OF ev(2)] less.prems(4) by simp
    from less.hyps[OF r i1 p1 l1 c1] obtain es s' where
      es: "AbortCall \<notin> set es" "run work es s1 = Some s'" "settled s'"
      by blast
    from ev es have "AbortCall \<notin> set (ev # es) \<and> run work (ev # es) s = Some s' \<and> settled s'"
      by simp
    then show ?thesis by blast
  qed
qed

text \<open>What the invariant says about a chunk on which every attempt fails.\<close>

lemma failing_chunk:
  assumes ri: "retry_inv work s" and j: "j < length (tasks s)"
    and m: "1 \<le> maxRetriesPerChunk (config (processor s))" and f: "\<forall>a. work j a \<noteq> None"
  shows "prefix (chunk_trace j s) (retry_schedule 0 (nat (maxRetriesPerChunk (config (processor s)))))"
    and "tasks s ! j \<noteq> Fulfilled"
    and "tasks s ! j = Rejected e \<Longrightarrow>
           e = the (work j (nat (maxRetriesPerChunk (config (processor s))) - 1)) \<and>
           chunk_trace j s = retry_schedule 0 (nat (maxRetriesPerChunk (config (processor s))))"
proof -
  let ?m = "maxRetriesPerChunk (config (processor s))"
  let ?fails = "\<lambda>a. attempt_failure work j a (chunks s ! j)"
  from ri j have t: "trace_ok ?m ?fails (tasks s ! j) (chunk_trace j s)"
    unfolding retry_inv_def by blast
  have fa: "?fails a = work j a" for a
  proof -
    from f have "work j a \<noteq> None" by blast
    then obtain e where "work j a = Some e" by blast
    then show ?thesis by (simp add: attempt_failure_def)
  qed
  have fn: "?fails a \<noteq> None" for a
    using fa[of a] f by simp
  show nful: "tasks s ! j \<noteq> Fulfilled"
  proof
    assume "tasks s ! j = Fulfilled"
    with t m have "\<exists>a < nat ?m. ?fails a = None \<and> chunk_trace j s = failed_attempts a @ [Executed a]"
      by simp
    with fn show False by blast
  qed
  show "e = the (work j (nat ?m - 1)) \<and> chunk_trace j s = retry_schedule 0 (nat ?m)"
    if "tasks s ! j = Rejected e"
  proof -
    from t that have "?fails (nat ?m - 1) = Some e" "chunk_trace j s = retry_schedule 0 (nat ?m)"
      by simp_all
    then show ?thesis using fa[of "nat ?m - 1"] by (metis option.sel)
  qed
  show "prefix (chunk_trace j s) (retry_schedule 0 (nat ?m))"
  proof (cases "tasks s ! j")
    case (Running a)
    with t attempt_prefix_schedule(2)[of a "nat ?m"] show ?thesis by auto
  next
    case (Backoff a)
    with t attempt_prefix_schedule(1)[of a "nat ?m"] show ?thesis by auto
  next
    case Sleeping
    with t have "\<exists>a < nat ?m. ?fails a = None \<and> chunk_trace j s = failed_attempts a @ [Executed a]"
      by simp
    with fn show ?thesis by blast
  next
    case Fulfilled
    with nful show ?thesis by simp
  next
    case (Rejected e)
    with t show ?thesis by simp
  qed (use t in auto)
qed

lemma settled_no_abort:
  assumes inv: "pipe_inv s" and ri: "retry_inv work s" and st: "main s = Settled out"
    and nf: "\<not> all_fulfilled (tasks s)"
  shows "\<exists>k < length (tasks s). \<exists>e. out = Thrown e \<and> tasks s ! k = Rejected e \<and>
           chunk_trace k s = retry_schedule 0 (nat (maxRetriesPerChunk (config (processor s)))) \<and>
           attempt_failure work k (nat (maxRetriesPerChunk (config (processor s))) - 1) (chunks s ! k) = Some e"
proof (cases out)
  case (Returned d)
  with inv st have "all_fulfilled (tasks s)" by (simp add: pipe_inv_def)
  with nf show ?thesis by simp
next
  case (Thrown e)
  with ri st obtain k where k: "k < length (tasks s)" "tasks s ! k = Rejected e"
    unfolding retry_inv_def by blast
  with ri have "trace_ok (maxRetriesPerChunk (config (processor s)))
      (\<lambda>a. attempt_failure work k a (chunks s ! k)) (Rejected e) (chunk_trace k s)"
    unfolding retry_inv_def by metis
  with k Thrown show ?thesis by auto
qed

text \<open>
  C3 (as amended). Let \<open>maxRetriesPerChunk\<close> be at least 1, let every attempt on the
  chunk fail, and let no abort be signalled. Then \<open>processChunkWithRetries\<close> executes
  the chunk exactly \<open>maxRetriesPerChunk\<close> times (attempts 0, 1, ...), pauses
  \<open>100 * 2^k\<close> milliseconds after the \<open>k\<close>-th failed attempt and before the next one
  (200 ms, 400 ms, ...), and rejects with the failure of the last attempt. With
  \<open>maxRetriesPerChunk\<close> of 0 or less it returns normally without executing the chunk.

  In a run of \<open>processLargeFigmaFile\<close> in which \<open>abort()\<close> is not called and chunk \<open>j\<close>
  fails on every attempt, under every schedule: what the task of chunk \<open>j\<close> has done is
  a prefix of that sequence of attempts and pauses, its promise is never fulfilled and
  the run never returns data; when its promise is rejected, the whole sequence has
  taken place and the error is the failure of the last attempt. When the run has
  settled, it has thrown the last failure of a chunk that went through all its
  attempts and was rejected; that is the failure of chunk \<open>j\<close> when no other chunk
  fails. The run does end: a schedule without \<open>abort()\<close> has fewer than
  \<open>2 + chunks * (2 * maxRetriesPerChunk + 6)\<close> resumptions, and with
  \<open>maxConcurrentChunks\<close> at least 1 a run that has not settled has a task that can be
  resumed, so that it can always be continued until it settles.
\<close>

theorem processChunkWithRetries_exhausts:
  "(1 \<le> maxRetries \<and> (\<forall>a. work a \<noteq> None) \<and> (\<forall>k. \<not> aborted k) \<longrightarrow>
      fst (processChunkWithRetries maxRetries aborted work) =
        Rejected (the (work (nat maxRetries - 1))) \<and>
      executions (snd (processChunkWithRetries maxRetries aborted work)) = [0 ..< nat maxRetries] \<and>
      pauses (snd (processChunkWithRetries maxRetries aborted work)) =
        map (\<lambda>k. 100 * 2 ^ k) [1 ..< nat maxRetries] \<and>
      snd (processChunkWithRetries maxRetries aborted work) = retry_schedule 0 (nat maxRetries)) \<and>
   (maxRetries \<le> 0 \<longrightarrow> processChunkWithRetries maxRetries aborted work = (Fulfilled, [])) \<and>
   (processLargeFigmaFile this document onProgress now = Some s0 \<and> run env es s0 = Some s \<and>
    AbortCall \<notin> set es \<and> 1 \<le> maxRetriesPerChunk (config this) \<and>
    j < length (chunks s0) \<and> (\<forall>a. env j a \<noteq> None) \<longrightarrow>
      prefix (chunk_trace j s) (retry_schedule 0 (nat (maxRetriesPerChunk (config this)))) \<and>
      tasks s ! j \<noteq> Fulfilled \<and> \<not> is_returned (main s) \<and>
      (\<forall>e. tasks s ! j = Rejected e \<longrightarrow>
           e = the (env j (nat (maxRetriesPerChunk (config this)) - 1)) \<and>
           chunk_trace j s = retry_schedule 0 (nat (maxRetriesPerChunk (config this)))) \<and>
      (\<forall>out. main s = Settled out \<longrightarrow>
           (\<exists>k < length (tasks s). \<exists>e.
              out = Thrown e \<and> tasks s ! k = Rejected e \<and>
              chunk_trace k s = retry_schedule 0 (nat (maxRetriesPerChunk (config this))) \<and>
              attempt_failure env k (nat (maxRetriesPerChunk (config this)) - 1) (chunks s ! k) = Some e)) \<and>
      ((\<forall>k < length (chunks s0). \<forall>a. k \<noteq> j \<longrightarrow> attempt_failure env k a (chunks s0 ! k) = None) \<longrightarrow>
         (\<forall>out. main s = Settled out \<longrightarrow>
              out = Thrown (the (env j (nat (maxRetriesPerChunk (config this)) - 1)))))) \<and>
   (processLargeFigmaFile this document onProgress now = Some s0 \<and> run env es s0 = Some s \<and>
    AbortCall \<notin> set es \<longrightarrow>
      length es < 2 + length (chunks s0) * (2 * nat (maxRetriesPerChunk (config this)) + 6) \<and>
      (1 \<le> maxConcurrentChunks (config this) \<longrightarrow>
         (\<not> settled s \<longrightarrow>
            main_step s \<noteq> None \<or> (\<exists>k < length (tasks s). task_step env k r s \<noteq> None)) \<and>
         (\<exists>es' s'. AbortCall \<notin> set es' \<and> run env es' s = Some s' \<and> settled s')))"
proof (intro conjI)
  show "1 \<le> maxRetries \<and> (\<forall>a. work a \<noteq> None) \<and> (\<forall>k. \<not> aborted k) \<longrightarrow>
      fst (processChunkWithRetries maxRetries aborted work) =
        Rejected (the (work (nat maxRetries - 1))) \<and>
      executions (snd (processChunkWithRetries maxRetries aborted work)) = [0 ..< nat maxRetries] \<and>
      pauses (snd (processChunkWithRetries maxRetries aborted work)) =
        map (\<lambda>k. 100 * 2 ^ k) [1 ..< nat maxRetries] \<and>
      snd (processChunkWithRetries maxRetries aborted work) = retry_schedule 0 (nat maxRetries)"
  proof
    assume h: "1 \<le> maxRetries \<and> (\<forall>a. work a \<noteq> None) \<and> (\<forall>k. \<not> aborted k)"
    then have r: "processChunkWithRetries maxRetries aborted work =
        (Rejected (the (work (nat maxRetries - 1))), retry_schedule 0 (nat maxRetries))"
      using task_run_failing[of work aborted 0 maxRetries Granted 0 "[]"]
      by (simp add: processChunkWithRetries_def)
    have n: "0 < nat maxRetries" using h by simp
    show "fst (processChunkWithRetries maxRetries aborted work) =
        Rejected (the (work (nat maxRetries - 1))) \<and>
      executions (snd (processChunkWithRetries maxRetries aborted work)) = [0 ..< nat maxRetries] \<and>
      pauses (snd (processChunkWithRetries maxRetries aborted work)) =
        map (\<lambda>k. 100 * 2 ^ k) [1 ..< nat maxRetries] \<and>
      snd (processChunkWithRetries maxRetries aborted work) = retry_schedule 0 (nat maxRetries)"
      using executions_retry_schedule[OF n] pauses_retry_schedule[OF n] by (simp add: r)
  qed
next
  show "maxRetries \<le> 0 \<longrightarrow> processChunkWithRetries maxRetries aborted work = (Fulfilled, [])"
  proof
    assume "maxRetries \<le> 0"
    then have "task_run maxRetries aborted work 0 Granted [] = task_run maxRetries aborted work 1 Fulfilled []"
      by (subst task_run.simps) (simp add: retry_head_def)
    also have "\<dots> = (Fulfilled, [])" by (subst task_run.simps) simp
    finally show "processChunkWithRetries maxRetries aborted work = (Fulfilled, [])"
      by (simp add: processChunkWithRetries_def)
  qed
next
  let ?m = "maxRetriesPerChunk (config this)"
  show "processLargeFigmaFile this document onProgress now = Some s0 \<and> run env es s0 = Some s \<and>
    AbortCall \<notin> set es \<and> 1 \<le> ?m \<and> j < length (chunks s0) \<and> (\<forall>a. env j a \<noteq> None) \<longrightarrow>
      prefix (chunk_trace j s) (retry_schedule 0 (nat ?m)) \<and>
      tasks s ! j \<noteq> Fulfilled \<and> \<not> is_returned (main s) \<and>
      (\<forall>e. tasks s ! j = Rejected e \<longrightarrow>
           e = the (env j (nat ?m - 1)) \<and> chunk_trace j s = retry_schedule 0 (nat ?m)) \<and>
      (\<forall>out. main s = Settled out \<longrightarrow>
           (\<exists>k < length (tasks s). \<exists>e.
              out = Thrown e \<and> tasks s ! k = Rejected e \<and>
              chunk_trace k s = retry_schedule 0 (nat ?m) \<and>
              attempt_failure env k (nat ?m - 1) (chunks s ! k) = Some e)) \<and>
      ((\<forall>k < length (chunks s0). \<forall>a. k \<noteq> j \<longrightarrow> attempt_failure env k a (chunks s0 ! k) = None) \<longrightarrow>
         (\<forall>out. main s = Settled out \<longrightarrow> out = Thrown (the (env j (nat ?m - 1)))))"
  proof
    assume h: "processLargeFigmaFile this document onProgress now = Some s0 \<and> run env es s0 = Some s \<and>
      AbortCall \<notin> set es \<and> 1 \<le> ?m \<and> j < length (chunks s0) \<and> (\<forall>a. env j a \<noteq> None)"
    then have st: "processLargeFigmaFile this document onProgress now = Some s0"
      and rn: "run env es s0 = Some s" and na: "AbortCall \<notin> set es" and f: "\<forall>a. env j a \<noteq> None"
      by simp_all
    have inv0: "pipe_inv s0" using start_inv[OF st] .
    have inv: "pipe_inv s" using run_inv[OF inv0 rn] .
    have ri: "retry_inv env s" using run_no_abort(3)[OF inv0 rn na] start_no_abort(1)[OF st] by blast
    have ch: "chunks s = chunks s0" using run_no_abort(4)[OF inv0 rn na] .
    have cf: "config (processor s) = config this"
      using start_processor[OF st] run_processor[OF rn] by simp
    from inv have len: "length (tasks s) = length (chunks s)" unfolding pipe_inv_def by blast
    with h ch have j: "j < length (tasks s)" by simp
    from h cf have m: "1 \<le> maxRetriesPerChunk (config (processor s))" by simp
    note fc = failing_chunk[OF ri j m f, unfolded cf]
    have nful: "tasks s ! j \<noteq> Fulfilled" using fc(2) .
    then have nf: "\<not> all_fulfilled (tasks s)"
      using j by (auto simp: all_fulfilled_def list_all_length)
    have nret: "\<not> is_returned (main s)"
    proof
      assume "is_returned (main s)"
      then obtain d where "main s = Settled (Returned d)"
        by (cases "main s" rule: is_returned.cases) auto
      with inv have "all_fulfilled (tasks s)" by (simp add: pipe_inv_def)
      with nf show False by simp
    qed
    have rej: "\<forall>e. tasks s ! j = Rejected e \<longrightarrow>
           e = the (env j (nat ?m - 1)) \<and> chunk_trace j s = retry_schedule 0 (nat ?m)"
      using fc(3) by blast
    have thrown: "\<exists>k < length (tasks s). \<exists>e.
              out = Thrown e \<and> tasks s ! k = Rejected e \<and>
              chunk_trace k s = retry_schedule 0 (nat ?m) \<and>
              attempt_failure env k (nat ?m - 1) (chunks s ! k) = Some e"
      if "main s = Settled out" for out
      using settled_no_abort[OF inv ri that nf] cf by simp
    have only: "out = Thrown (the (env j (nat ?m - 1)))"
      if o: "\<forall>k < length (chunks s0). \<forall>a. k \<noteq> j \<longrightarrow> attempt_failure env k a (chunks s0 ! k) = None"
        and "main s = Settled out" for out
    proof -
      from thrown[OF that(2)] obtain k e where k: "k < length (tasks s)" "out = Thrown e"
          "tasks s ! k = Rejected e" "attempt_failure env k (nat ?m - 1) (chunks s ! k) = Some e"
        by blast
      have "k = j"
      proof (rule ccontr)
        assume "k \<noteq> j"
        with o k(1) len ch have "attempt_failure env k (nat ?m - 1) (chunks s ! k) = None" by simp
        with k(4) show False by simp
      qed
      with k rej show ?thesis by simp
    qed
    from fc(1) nful nret rej thrown only
    show "prefix (chunk_trace j s) (retry_schedule 0 (nat ?m)) \<and>
      tasks s ! j \<noteq> Fulfilled \<and> \<not> is_returned (main s) \<and>
      (\<forall>e. tasks s ! j = Rejected e \<longrightarrow>
           e = the (env j (nat ?m - 1)) \<and> chunk_trace j s = retry_schedule 0 (nat ?m)) \<and>
      (\<forall>out. main s = Settled out \<longrightarrow>
           (\<exists>k < length (tasks s). \<exists>e.
              out = Thrown e \<and> tasks s ! k = Rejected e \<and>
              chunk_trace k s = retry_schedule 0 (nat ?m) \<and>
              attempt_failure env k (nat ?m - 1) (chunks s ! k) = Some e)) \<and>
      ((\<forall>k < length (chunks s0). \<forall>a. k \<noteq> j \<longrightarrow> attempt_failure env k a (chunks s0 ! k) = None) \<longrightarrow>
         (\<forall>out. main s = Settled out \<longrightarrow> out = Thrown (the (env j (nat ?m - 1)))))"
      by blast
  qed
next
  let ?m = "maxRetriesPerChunk (config this)"
  show "processLargeFigmaFile this document onProgress now = Some s0 \<and> run env es s0 = Some s \<and>
    AbortCall \<notin> set es \<longrightarrow>
      length es < 2 + length (chunks s0) * (2 * nat ?m + 6) \<and>
      (1 \<le> maxConcurrentChunks (config this) \<longrightarrow>
         (\<not> settled s \<longrightarrow>
            main_step s \<noteq> None \<or> (\<exists>k < length (tasks s). task_step env k r s \<noteq> None)) \<and>
         (\<exists>es' s'. AbortCall \<notin> set es' \<and> run env es' s = Some s' \<and> settled s'))"
  proof
    assume h: "processLargeFigmaFile this document onProgress now = Some s0 \<and> run env es s0 = Some s \<and>
      AbortCall \<notin> set es"
    then have st: "processLargeFigmaFile this document onProgress now = Some s0"
      and rn: "run env es s0 = Some s" and na: "AbortCall \<notin> set es"
      by simp_all
    have inv0: "pipe_inv s0" using start_inv[OF st] .
    have inv: "pipe_inv s" using run_inv[OF inv0 rn] .
    have li: "live_inv s" using run_no_abort(2)[OF inv0 rn na] start_no_abort(2)[OF st] by blast
    have cf: "config (processor s) = config this"
      using start_processor[OF st] run_processor[OF rn] by simp
    have bound: "length es < 2 + length (chunks s0) * (2 * nat ?m + 6)"
      using run_no_abort(1)[OF inv0 rn na] start_no_abort(3)[OF st] by simp
    have live: "(\<not> settled s \<longrightarrow>
            main_step s \<noteq> None \<or> (\<exists>k < length (tasks s). task_step env k r s \<noteq> None)) \<and>
         (\<exists>es' s'. AbortCall \<notin> set es' \<and> run env es' s = Some s' \<and> settled s')"
      if c: "1 \<le> maxConcurrentChunks (config this)"
    proof -
      from c have "0 \<le> maxConcurrentChunks (config this)" by simp
      from start_permits[OF st this] have "permits_ok s0" .
      from run_permits[OF inv0 this rn] have ok: "permits_ok s" .
      from c cf have c': "1 \<le> maxConcurrentChunks (config (processor s))" by simp
      from not_stuck[OF inv ok li c', of env r] can_finish[OF inv ok li c', of env]
      show ?thesis by blast
    qed
    from bound live
    show "length es < 2 + length (chunks s0) * (2 * nat ?m + 6) \<and>
      (1 \<le> maxConcurrentChunks (config this) \<longrightarrow>
         (\<not> settled s \<longrightarrow>
            main_step s \<noteq> None \<or> (\<exists>k < length (tasks s). task_step env k r s \<noteq> None)) \<and>
         (\<exists>es' s'. AbortCall \<notin> set es' \<and> run env es' s = Some s' \<and> settled s'))"
      by blast
  qed
qed

theorem processChunkWithRetries_exhausts_witness:
  "(1::int) \<le> 3 \<and> (\<forall>a. always_failing a \<noteq> None) \<and> (\<forall>k. \<not> never_aborted k) \<and>
   processChunkWithRetries 3 never_aborted always_failing =
     (Rejected (ChunkFailure ''injected failure''),
      [Executed 0, Waited 200, Executed 1, Waited 400, Executed 2]) \<and>
   (0::int) \<le> 0 \<and> processChunkWithRetries 0 never_aborted always_failing = (Fulfilled, []) \<and>
   processLargeFigmaFile (processor_with 1 1 2) (frame ''0'' [leaf ''1'']) True 1000 =
     Some (the (retrying_run [])) \<and>
   run (chunk_fails 1) [tick 0, tick 0, tick 0, Main, tick 1, tick 1, tick 1, tick 1, Main]
     (the (retrying_run [])) =
     Some (the (retrying_run [tick 0, tick 0, tick 0, Main, tick 1, tick 1, tick 1, tick 1, Main])) \<and>
   AbortCall \<notin> set [tick 0, tick 0, tick 0, Main, tick 1, tick 1, tick 1, tick 1, Main] \<and>
   1 \<le> maxRetriesPerChunk (config (processor_with 1 1 2)) \<and>
   length (chunks (the (retrying_run []))) = 2 \<and> (\<forall>a. chunk_fails 1 1 a \<noteq> None) \<and>
   (\<forall>a. attempt_failure (chunk_fails 1) 0 a (chunks (the (retrying_run [])) ! 0) = None) \<and>
   tasks (the (retrying_run [tick 0, tick 0, tick 0, Main, tick 1, tick 1, tick 1, tick 1, Main])) ! 1 =
     Rejected (ChunkFailure ''injected failure'') \<and>
   chunk_trace 1 (the (retrying_run [tick 0, tick 0, tick 0, Main, tick 1, tick 1, tick 1, tick 1, Main])) =
     [Executed 0, Waited 200, Executed 1] \<and>
   main (the (retrying_run [tick 0, tick 0, tick 0, Main, tick 1, tick 1, tick 1, tick 1, Main])) =
     Settled (Thrown (ChunkFailure ''injected failure'')) \<and>
   \<not> is_returned
       (main (the (retrying_run [tick 0, tick 0, tick 0, Main, tick 1, tick 1, tick 1, tick 1, Main]))) \<and>
   1 \<le> maxConcurrentChunks (config (processor_with 1 1 2)) \<and>
   run (chunk_fails 1) [tick 0] (the (retrying_run [])) = Some (the (retrying_run [tick 0])) \<and>
   \<not> settled (the (retrying_run [tick 0])) \<and>
   main_step (the (retrying_run [tick 0])) \<noteq> None"
proof -
  have u: "processChunkWithRetries 3 never_aborted always_failing =
     (Rejected (ChunkFailure ''injected failure''),
      [Executed 0, Waited 200, Executed 1, Waited 400, Executed 2]) \<and>
     processChunkWithRetries 0 never_aborted always_failing = (Fulfilled, [])"
    using processChunkWithRetries_exhausts
            [where maxRetries = 3 and work = always_failing and aborted = never_aborted]
          processChunkWithRetries_exhausts
            [where maxRetries = 0 and work = always_failing and aborted = never_aborted]
    by (simp add: always_failing_def never_aborted_def retry_schedule_def prod_eq_iff
          upt_conv_Cons)
  have h1: "processLargeFigmaFile (processor_with 1 1 2) (frame ''0'' [leaf ''1'']) True 1000 =
     Some (the (retrying_run []))"
    by code_simp
  have h2: "run (chunk_fails 1) [tick 0, tick 0, tick 0, Main, tick 1, tick 1, tick 1, tick 1, Main]
     (the (retrying_run [])) =
     Some (the (retrying_run [tick 0, tick 0, tick 0, Main, tick 1, tick 1, tick 1, tick 1, Main]))"
    by code_simp
  have h3: "AbortCall \<notin> set [tick 0, tick 0, tick 0, Main, tick 1, tick 1, tick 1, tick 1, Main]"
    "AbortCall \<notin> set [tick 0]"
    by (simp_all add: tick_def)
  have h4: "maxRetriesPerChunk (config (processor_with 1 1 2)) = 2"
    "maxConcurrentChunks (config (processor_with 1 1 2)) = 1"
    by (simp_all add: processor_with_def LargeFileProcessor_constructor_def orDefault_def
          empty_config_def default_processor_def)
  have h5: "length (chunks (the (retrying_run []))) = 2"
    by code_simp
  have h6: "\<forall>a. chunk_fails 1 1 a \<noteq> None"
    by (simp add: chunk_fails_def)
  have h7: "case processNodes (chunks (the (retrying_run [])) ! 0) of Inl e \<Rightarrow> False | Inr pc \<Rightarrow> True"
    by code_simp
  have h8: "\<forall>k < length (chunks (the (retrying_run []))). \<forall>a. k \<noteq> 1 \<longrightarrow>
      attempt_failure (chunk_fails 1) k a (chunks (the (retrying_run [])) ! k) = None"
  proof (intro allI impI)
    fix k a assume "k < length (chunks (the (retrying_run [])))" "k \<noteq> 1"
    with h5 have "k = 0" by simp
    with h7 show "attempt_failure (chunk_fails 1) k a (chunks (the (retrying_run [])) ! k) = None"
      by (simp add: attempt_failure_def chunk_fails_def split: sum.splits)
  qed
  have h9: "tasks (the (retrying_run [tick 0, tick 0, tick 0, Main, tick 1, tick 1, tick 1, tick 1, Main])) ! 1 =
     Rejected (ChunkFailure ''injected failure'')"
    by code_simp
  have h10: "main (the (retrying_run [tick 0, tick 0, tick 0, Main, tick 1, tick 1, tick 1, tick 1, Main])) =
     Settled (Thrown (ChunkFailure ''injected failure''))"
    by code_simp
  have h11: "run (chunk_fails 1) [tick 0] (the (retrying_run [])) = Some (the (retrying_run [tick 0]))"
    by code_simp
  have h12: "\<not> settled (the (retrying_run [tick 0]))"
    by code_simp
  have h13: "retry_schedule 0 (nat 2) = [Executed 0, Waited 200, Executed 1]"
    by (simp add: retry_schedule_def upt_conv_Cons)
  note a = processChunkWithRetries_exhausts
    [where this = "processor_with 1 1 2" and document = "frame ''0'' [leaf ''1'']"
       and onProgress = True and now = 1000 and ?s0.0 = "the (retrying_run [])"
       and env = "chunk_fails 1"
       and es = "[tick 0, tick 0, tick 0, Main, tick 1, tick 1, tick 1, tick 1, Main]"
       and s = "the (retrying_run [tick 0, tick 0, tick 0, Main, tick 1, tick 1, tick 1, tick 1, Main])"
       and j = 1 and r = "at_time 0"]
  note b = processChunkWithRetries_exhausts
    [where this = "processor_with 1 1 2" and document = "frame ''0'' [leaf ''1'']"
       and onProgress = True and now = 1000 and ?s0.0 = "the (retrying_run [])"
       and env = "chunk_fails 1" and es = "[tick 0]" and s = "the (retrying_run [tick 0])"
       and j = 1 and r = "at_time 0"]
  from a h1 h2 h3 h4 h5 h6 h9
  have c1: "chunk_trace 1 (the (retrying_run [tick 0, tick 0, tick 0, Main, tick 1, tick 1, tick 1, tick 1, Main])) =
      retry_schedule 0 (nat 2)"
    by simp
  from a h1 h2 h3 h4 h5 h6
  have c2: "\<not> is_returned
       (main (the (retrying_run [tick 0, tick 0, tick 0, Main, tick 1, tick 1, tick 1, tick 1, Main])))"
    by simp
  from b h1 h11 h3 h4 h12
  have c3: "main_step (the (retrying_run [tick 0])) \<noteq> None \<or>
    (\<exists>k < length (tasks (the (retrying_run [tick 0]))).
        task_step (chunk_fails 1) k (at_time 0) (the (retrying_run [tick 0])) \<noteq> None)"
    by simp
  have h14: "main_step (the (retrying_run [tick 0])) \<noteq> None"
    by code_simp
  have h15: "\<forall>a. attempt_failure (chunk_fails 1) 0 a (chunks (the (retrying_run [])) ! 0) = None"
    using h7 by (simp add: attempt_failure_def chunk_fails_def split: sum.splits)
  from a h1 h2 h3 h4 h5 h6 h8 h10
  have c4: "Thrown (ChunkFailure ''injected failure'') = Thrown (the (chunk_fails 1 1 (nat 2 - 1)))"
    by simp
  from u h1 h2 h3 h4 h5 h6 h9 h10 h11 h12 h13 h14 h15 c1 c2 c3 c4
  show ?thesis by (simp add: always_failing_def never_aborted_def)
qed

text \<open>
  C3 as stated fails for \<open>maxRetriesPerChunk = 0\<close>: the chunk that would fail on every
  attempt is never executed and the call returns normally, so no failure is propagated;
  the run returns its data, with no chunk executed. And with \<open>maxConcurrentChunks = 0\<close>
  no chunk is handed a permit: the chunk is never executed and the run waits at
  \<open>Promise.all\<close> with nothing left to resume, so it does not end in error either.
\<close>

theorem processChunkWithRetries_zero_counterexample:
  "fst (processChunkWithRetries 0 never_aborted always_failing) = Fulfilled \<and>
   fst (processChunkWithRetries 0 never_aborted always_failing) \<noteq>
     Rejected (ChunkFailure ''injected failure'') \<and>
   map_option (is_returned \<circ> main) (zero_retries_run [tick 0, Main, tick 1, Main]) = Some True \<and>
   map_option started (zero_retries_run [tick 0, Main, tick 1, Main]) = Some [] \<and>
   map_option main (no_permit_run [Main]) = Some AwaitAll \<and>
   map_option tasks (no_permit_run [Main]) = Some [Waiting, Waiting] \<and>
   map_option main_step (no_permit_run [Main]) = Some None \<and>
   map_option (task_step (chunk_fails 1) 0 (at_time 0)) (no_permit_run [Main]) = Some None \<and>
   map_option (task_step (chunk_fails 1) 1 (at_time 0)) (no_permit_run [Main]) = Some None"
proof -
  have a: "fst (processChunkWithRetries 0 never_aborted always_failing) = Fulfilled"
    by (simp add: processChunkWithRetries_def task_run.simps retry_head_def)
  have b: "map_option (is_returned \<circ> main) (zero_retries_run [tick 0, Main, tick 1, Main]) = Some True"
    "map_option started (zero_retries_run [tick 0, Main, tick 1, Main]) = Some []"
    by code_simp+
  have c: "map_option main (no_permit_run [Main]) = Some AwaitAll"
    "map_option tasks (no_permit_run [Main]) = Some [Waiting, Waiting]"
    "map_option main_step (no_permit_run [Main]) = Some None"
    "map_option (task_step (chunk_fails 1) 0 (at_time 0)) (no_permit_run [Main]) = Some None"
    "map_option (task_step (chunk_fails 1) 1 (at_time 0)) (no_permit_run [Main]) = Some None"
    by code_simp+
  from a b c show ?thesis by simp
qed

end
